theory Spec2Isabelle
  imports Main "HOL-Library.Word"
begin

unbundle bit_operations_syntax

section \<open>Machine integers, slices and errors\<close>

text \<open>
  Go's \<open>int\<close> is taken as the 64-bit signed integer of the platforms the node is built
  for. Values of type \<open>int\<close> are HOL integers; an addition that can leave the 64-bit
  range wraps around, which \<open>add64\<close> writes out. Where a preceding check of the source
  already bounds the operands (an offset that was just found to be non-negative and
  below the length, an index that was just found to be in range), the arithmetic is
  exact and is written with plain \<open>+\<close> and \<open>-\<close>.
\<close>

type_synonym byte = "8 word"

definition add64 :: "int \<Rightarrow> int \<Rightarrow> int" where
  "add64 a b = (a + b + 2 ^ 63) mod 2 ^ 64 - 2 ^ 63"

definition len :: "'a list \<Rightarrow> int" where
  "len xs = int (length xs)"

datatype error =
    errBadLength
  | errNegativeOffset
  | errInvalidInput
  | errBadType
  | errBadBool
  | errNoPendingBlocks
  | errBadGenesisBytes

definition MaxStringLen :: int where "MaxStringLen = 65535"
definition ByteLen :: int where "ByteLen = 1"
definition ShortLen :: int where "ShortLen = 2"
definition IntLen :: int where "IntLen = 4"
definition LongLen :: int where "LongLen = 8"

section \<open>The Packer (utils/wrappers/packing.go)\<close>

text \<open>
  A Go slice is a window of length \<open>len\<close> on a backing array of \<open>cap\<close> elements.
  \<open>Bytes\<close> is the window; \<open>Spare\<close> holds the elements of the backing array between
  \<open>len\<close> and \<open>cap\<close>, which re-slicing makes visible again. A nil slice and an empty
  slice are both the empty list. The embedded \<open>Errs\<close> is the list of accumulated errors.
\<close>

record Packer =
  Errs :: "error list"
  MaxSize :: int
  Bytes :: "byte list"
  Spare :: "byte list"
  Offset :: int

text \<open>
  Modelled from the spec: the embedded \<open>Errs\<close> collection and its methods \<open>Errored\<close>
  and \<open>Add\<close> are declared in a file of the package that is not among the sources. The
  spec describes an ordered list of accumulated errors: \<open>Add\<close> records one more, and
  \<open>Errored\<close> holds once at least one was recorded.
\<close>

definition Errored :: "Packer \<Rightarrow> bool" where
  "Errored p = (Errs p \<noteq> [])"

definition Add :: "error \<Rightarrow> Packer \<Rightarrow> Packer" where
  "Add e p = p\<lparr>Errs := Errs p @ [e]\<rparr>"

definition cap :: "Packer \<Rightarrow> int" where
  "cap p = len (Bytes p) + len (Spare p)"

definition CheckSpace :: "int \<Rightarrow> Packer \<Rightarrow> Packer" where
  "CheckSpace bytes p =
     (if Offset p < 0 then Add errNegativeOffset p
      else if bytes < 0 then Add errInvalidInput p
      else if len (Bytes p) - Offset p < bytes then Add errBadLength p
      else p)"

text \<open>
  \<open>append\<close> onto the full backing array allocates a new array; the capacity it gets
  beyond the requested length is left to the Go runtime and is zero-filled. The model
  gives the new slice no spare capacity: every later growth then appends zeros, which
  is what re-slicing into zero-filled spare capacity would show.
\<close>

definition Expand :: "int \<Rightarrow> Packer \<Rightarrow> Packer" where
  "Expand bytes p0 =
     (let p = CheckSpace 0 p0 in
      if Errored p then p
      else
        let neededSize = add64 bytes (Offset p) in
        if neededSize \<le> len (Bytes p) then p
        else if neededSize > MaxSize p then Add errBadLength p
        else if neededSize > cap p then
          p\<lparr>Bytes := Bytes p @ Spare p @ replicate (nat (neededSize - cap p)) 0,
            Spare := []\<rparr>
        else
          p\<lparr>Bytes := Bytes p @ take (nat (neededSize - len (Bytes p))) (Spare p),
            Spare := drop (nat (neededSize - len (Bytes p))) (Spare p)\<rparr>)"

subsection \<open>Slice expressions and encoding/binary\<close>

text \<open>
  Operations that index or re-slice return \<open>None\<close> where Go panics. \<open>index b i\<close> is
  \<open>b[i]\<close>, \<open>slice_from b i\<close> is \<open>b[i:]\<close>, and \<open>slice b spare i j\<close> is \<open>b[i:j]\<close>, whose
  upper bound is the capacity (\<open>spare\<close> being what lies between length and capacity).
  \<open>overwrite b i vs\<close> stores the bytes \<open>vs\<close> at positions \<open>i, i + 1, ...\<close> of \<open>b\<close>; its
  callers establish that they fit.
\<close>

definition index :: "byte list \<Rightarrow> int \<Rightarrow> byte option" where
  "index b i = (if 0 \<le> i \<and> i < len b then Some (b ! nat i) else None)"

definition slice_from :: "byte list \<Rightarrow> int \<Rightarrow> byte list option" where
  "slice_from b i = (if 0 \<le> i \<and> i \<le> len b then Some (drop (nat i) b) else None)"

definition slice :: "byte list \<Rightarrow> byte list \<Rightarrow> int \<Rightarrow> int \<Rightarrow> byte list option" where
  "slice b spare i j =
     (if 0 \<le> i \<and> i \<le> j \<and> j \<le> len b + len spare
      then Some (take (nat (j - i)) (drop (nat i) (b @ spare)))
      else None)"

definition overwrite :: "byte list \<Rightarrow> int \<Rightarrow> byte list \<Rightarrow> byte list" where
  "overwrite b i vs = take (nat i) b @ vs @ drop (nat i + length vs) b"

text \<open>
  \<open>binary.BigEndian\<close>: \<open>PutUintN(b, v)\<close> first indexes \<open>b[N-1]\<close> (panicking on a short
  slice) and then stores the bytes of \<open>v\<close>, most significant first; \<open>UintN(b)\<close> indexes
  \<open>b[N-1]\<close> and assembles the value by shifts.
\<close>

definition bytes16 :: "16 word \<Rightarrow> byte list" where
  "bytes16 v = [ucast (drop_bit 8 v), ucast v]"

definition bytes32 :: "32 word \<Rightarrow> byte list" where
  "bytes32 v = [ucast (drop_bit 24 v), ucast (drop_bit 16 v), ucast (drop_bit 8 v), ucast v]"

definition bytes64 :: "64 word \<Rightarrow> byte list" where
  "bytes64 v =
     [ucast (drop_bit 56 v), ucast (drop_bit 48 v), ucast (drop_bit 40 v),
      ucast (drop_bit 32 v), ucast (drop_bit 24 v), ucast (drop_bit 16 v),
      ucast (drop_bit 8 v), ucast v]"

definition Uint16 :: "byte list \<Rightarrow> 16 word option" where
  "Uint16 b =
     (if length b < 2 then None
      else Some (ucast (b ! 1) OR push_bit 8 (ucast (b ! 0))))"

definition Uint32 :: "byte list \<Rightarrow> 32 word option" where
  "Uint32 b =
     (if length b < 4 then None
      else Some (ucast (b ! 3) OR push_bit 8 (ucast (b ! 2)) OR push_bit 16 (ucast (b ! 1))
                 OR push_bit 24 (ucast (b ! 0))))"

definition Uint64 :: "byte list \<Rightarrow> 64 word option" where
  "Uint64 b =
     (if length b < 8 then None
      else Some (ucast (b ! 7) OR push_bit 8 (ucast (b ! 6)) OR push_bit 16 (ucast (b ! 5))
                 OR push_bit 24 (ucast (b ! 4)) OR push_bit 32 (ucast (b ! 3))
                 OR push_bit 40 (ucast (b ! 2)) OR push_bit 48 (ucast (b ! 1))
                 OR push_bit 56 (ucast (b ! 0))))"

text \<open>
  \<open>put p vs\<close> is \<open>binary.BigEndian.PutUintN(p.Bytes[p.Offset:], v)\<close> with \<open>vs\<close> the
  \<open>N\<close> bytes of \<open>v\<close>: the slice expression panics outside \<open>0..len\<close>, the store panics
  when fewer than \<open>N\<close> bytes follow the offset.
\<close>

definition put :: "Packer \<Rightarrow> byte list \<Rightarrow> byte list option" where
  "put p vs =
     (case slice_from (Bytes p) (Offset p) of
        None \<Rightarrow> None
      | Some b \<Rightarrow> if length b < length vs then None
                  else Some (overwrite (Bytes p) (Offset p) vs))"

text \<open>
  \<open>copy(dst, src)\<close> copies \<open>min(len(dst), len(src))\<close> bytes and never panics;
  \<open>copy_at p src\<close> is \<open>copy(p.Bytes[p.Offset:], src)\<close>.
\<close>

definition copy_at :: "Packer \<Rightarrow> byte list \<Rightarrow> byte list option" where
  "copy_at p src =
     (case slice_from (Bytes p) (Offset p) of
        None \<Rightarrow> None
      | Some dst \<Rightarrow> Some (overwrite (Bytes p) (Offset p) (take (min (length dst) (length src)) src)))"

subsection \<open>Typed operations\<close>

definition PackByte :: "byte \<Rightarrow> Packer \<Rightarrow> Packer option" where
  "PackByte val p0 =
     (let p = Expand ByteLen p0 in
      if Errored p then Some p
      else case index (Bytes p) (Offset p) of
             None \<Rightarrow> None
           | Some _ \<Rightarrow> Some (p\<lparr>Bytes := (Bytes p)[nat (Offset p) := val],
                               Offset := Offset p + 1\<rparr>))"

definition UnpackByte :: "Packer \<Rightarrow> (byte \<times> Packer) option" where
  "UnpackByte p0 =
     (let p = CheckSpace ByteLen p0 in
      if Errored p then Some (0, p)
      else case index (Bytes p) (Offset p) of
             None \<Rightarrow> None
           | Some val \<Rightarrow> Some (val, p\<lparr>Offset := Offset p + 1\<rparr>))"

definition PackShort :: "16 word \<Rightarrow> Packer \<Rightarrow> Packer option" where
  "PackShort val p0 =
     (let p = Expand ShortLen p0 in
      if Errored p then Some p
      else case put p (bytes16 val) of
             None \<Rightarrow> None
           | Some bs \<Rightarrow> Some (p\<lparr>Bytes := bs, Offset := Offset p + ShortLen\<rparr>))"

definition UnpackShort :: "Packer \<Rightarrow> (16 word \<times> Packer) option" where
  "UnpackShort p0 =
     (let p = CheckSpace ShortLen p0 in
      if Errored p then Some (0, p)
      else case slice_from (Bytes p) (Offset p) of
             None \<Rightarrow> None
           | Some b \<Rightarrow> (case Uint16 b of
                          None \<Rightarrow> None
                        | Some val \<Rightarrow> Some (val, p\<lparr>Offset := Offset p + ShortLen\<rparr>)))"

definition PackInt :: "32 word \<Rightarrow> Packer \<Rightarrow> Packer option" where
  "PackInt val p0 =
     (let p = Expand IntLen p0 in
      if Errored p then Some p
      else case put p (bytes32 val) of
             None \<Rightarrow> None
           | Some bs \<Rightarrow> Some (p\<lparr>Bytes := bs, Offset := Offset p + IntLen\<rparr>))"

definition UnpackInt :: "Packer \<Rightarrow> (32 word \<times> Packer) option" where
  "UnpackInt p0 =
     (let p = CheckSpace IntLen p0 in
      if Errored p then Some (0, p)
      else case slice_from (Bytes p) (Offset p) of
             None \<Rightarrow> None
           | Some b \<Rightarrow> (case Uint32 b of
                          None \<Rightarrow> None
                        | Some val \<Rightarrow> Some (val, p\<lparr>Offset := Offset p + IntLen\<rparr>)))"

definition PackLong :: "64 word \<Rightarrow> Packer \<Rightarrow> Packer option" where
  "PackLong val p0 =
     (let p = Expand LongLen p0 in
      if Errored p then Some p
      else case put p (bytes64 val) of
             None \<Rightarrow> None
           | Some bs \<Rightarrow> Some (p\<lparr>Bytes := bs, Offset := Offset p + LongLen\<rparr>))"

definition UnpackLong :: "Packer \<Rightarrow> (64 word \<times> Packer) option" where
  "UnpackLong p0 =
     (let p = CheckSpace LongLen p0 in
      if Errored p then Some (0, p)
      else case slice_from (Bytes p) (Offset p) of
             None \<Rightarrow> None
           | Some b \<Rightarrow> (case Uint64 b of
                          None \<Rightarrow> None
                        | Some val \<Rightarrow> Some (val, p\<lparr>Offset := Offset p + LongLen\<rparr>)))"

definition PackBool :: "bool \<Rightarrow> Packer \<Rightarrow> Packer option" where
  "PackBool b p = (if b then PackByte 1 p else PackByte 0 p)"

definition UnpackBool :: "Packer \<Rightarrow> (bool \<times> Packer) option" where
  "UnpackBool p0 =
     (case UnpackByte p0 of
        None \<Rightarrow> None
      | Some (b, p) \<Rightarrow>
          if b = 0 then Some (False, p)
          else if b = 1 then Some (True, p)
          else Some (False, Add errBadBool p))"

text \<open>
  \<open>PackFixedBytes\<close> adds the length of its argument to the offset after a copy that
  cannot fail, so this addition is the one that can wrap.
\<close>

definition PackFixedBytes :: "byte list \<Rightarrow> Packer \<Rightarrow> Packer option" where
  "PackFixedBytes bytes p0 =
     (let p = Expand (len bytes) p0 in
      if Errored p then Some p
      else case copy_at p bytes of
             None \<Rightarrow> None
           | Some bs \<Rightarrow> Some (p\<lparr>Bytes := bs, Offset := add64 (Offset p) (len bytes)\<rparr>))"

definition UnpackFixedBytes :: "int \<Rightarrow> Packer \<Rightarrow> (byte list \<times> Packer) option" where
  "UnpackFixedBytes sz p0 =
     (let p = CheckSpace sz p0 in
      if Errored p then Some ([], p)
      else case slice (Bytes p) (Spare p) (Offset p) (Offset p + sz) of
             None \<Rightarrow> None
           | Some bytes \<Rightarrow> Some (bytes, p\<lparr>Offset := Offset p + sz\<rparr>))"

text \<open>The conversions \<open>uint32(len(x))\<close> and \<open>uint16(len(x))\<close> truncate.\<close>

definition PackBytes :: "byte list \<Rightarrow> Packer \<Rightarrow> Packer option" where
  "PackBytes bytes p =
     (case PackInt (word_of_int (len bytes)) p of
        None \<Rightarrow> None
      | Some p1 \<Rightarrow> PackFixedBytes bytes p1)"

definition UnpackBytes :: "Packer \<Rightarrow> (byte list \<times> Packer) option" where
  "UnpackBytes p =
     (case UnpackInt p of
        None \<Rightarrow> None
      | Some (sz, p1) \<Rightarrow> UnpackFixedBytes (uint sz) p1)"

fun PackFixedByteSlices_loop :: "byte list list \<Rightarrow> Packer \<Rightarrow> Packer option" where
  "PackFixedByteSlices_loop [] p = Some p"
| "PackFixedByteSlices_loop (bytes # rest) p =
     (case PackFixedBytes bytes p of
        None \<Rightarrow> None
      | Some p1 \<Rightarrow> PackFixedByteSlices_loop rest p1)"

definition PackFixedByteSlices :: "byte list list \<Rightarrow> Packer \<Rightarrow> Packer option" where
  "PackFixedByteSlices byteSlices p =
     (case PackInt (word_of_int (len byteSlices)) p of
        None \<Rightarrow> None
      | Some p1 \<Rightarrow> PackFixedByteSlices_loop byteSlices p1)"

text \<open>
  The loop \<open>for i := uint32(0); i < sliceSize && !p.Errored(); i++\<close>: the first
  argument counts the iterations that \<open>i < sliceSize\<close> still allows, \<open>sliceSize - i\<close>.
\<close>

fun UnpackFixedByteSlices_loop ::
  "nat \<Rightarrow> int \<Rightarrow> byte list list \<Rightarrow> Packer \<Rightarrow> (byte list list \<times> Packer) option" where
  "UnpackFixedByteSlices_loop 0 sz bytes p = Some (bytes, p)"
| "UnpackFixedByteSlices_loop (Suc n) sz bytes p =
     (if Errored p then Some (bytes, p)
      else case UnpackFixedBytes sz p of
             None \<Rightarrow> None
           | Some (b, p1) \<Rightarrow> UnpackFixedByteSlices_loop n sz (bytes @ [b]) p1)"

definition UnpackFixedByteSlices :: "int \<Rightarrow> Packer \<Rightarrow> (byte list list \<times> Packer) option" where
  "UnpackFixedByteSlices sz p =
     (case UnpackInt p of
        None \<Rightarrow> None
      | Some (sliceSize, p1) \<Rightarrow> UnpackFixedByteSlices_loop (unat sliceSize) sz [] p1)"

text \<open>
  A Go string is a sequence of bytes; \<open>[]byte(str)\<close> and \<open>string(bytes)\<close> convert
  between it and a byte slice without changing a byte.
\<close>

definition bytes_of_string :: "string \<Rightarrow> byte list" where
  "bytes_of_string str = map of_char str"

definition string_of_bytes :: "byte list \<Rightarrow> string" where
  "string_of_bytes bytes = map (\<lambda>b. char_of (unat b)) bytes"

definition PackStr :: "string \<Rightarrow> Packer \<Rightarrow> Packer option" where
  "PackStr str p0 =
     (let strSize = len str;
          p = (if strSize > MaxStringLen then Add errInvalidInput p0 else p0)
      in case PackShort (word_of_int strSize) p of
           None \<Rightarrow> None
         | Some p1 \<Rightarrow> PackFixedBytes (bytes_of_string str) p1)"

definition UnpackStr :: "Packer \<Rightarrow> (string \<times> Packer) option" where
  "UnpackStr p =
     (case UnpackShort p of
        None \<Rightarrow> None
      | Some (strSize, p1) \<Rightarrow>
          (case UnpackFixedBytes (uint strSize) p1 of
             None \<Rightarrow> None
           | Some (bytes, p2) \<Rightarrow> Some (string_of_bytes bytes, p2)))"

text \<open>
  \<open>utils.IPDesc\<close> is a \<open>net.IP\<close> (a byte slice) and a port. \<open>To16\<close> is the
  standard library's \<open>net.IP.To16\<close>: a 4-byte address is put behind the prefix of
  IPv4-mapped addresses, a 16-byte address is returned as it is, anything else gives nil.
\<close>

record IPDesc =
  IP :: "byte list"
  Port :: "16 word"

definition To16 :: "byte list \<Rightarrow> byte list" where
  "To16 ip =
     (if length ip = 4 then replicate 10 0 @ [255, 255] @ ip
      else if length ip = 16 then ip
      else [])"

definition PackIP :: "IPDesc \<Rightarrow> Packer \<Rightarrow> Packer option" where
  "PackIP ip p =
     (case PackFixedBytes (To16 (IP ip)) p of
        None \<Rightarrow> None
      | Some p1 \<Rightarrow> PackShort (Port ip) p1)"

definition UnpackIP :: "Packer \<Rightarrow> (IPDesc \<times> Packer) option" where
  "UnpackIP p =
     (case UnpackFixedBytes 16 p of
        None \<Rightarrow> None
      | Some (ip, p1) \<Rightarrow>
          (case UnpackShort p1 of
             None \<Rightarrow> None
           | Some (port, p2) \<Rightarrow> Some (\<lparr>IP = ip, Port = port\<rparr>, p2)))"

fun PackIPs_loop :: "IPDesc list \<Rightarrow> Packer \<Rightarrow> Packer option" where
  "PackIPs_loop [] p = Some p"
| "PackIPs_loop (ip # rest) p =
     (if Errored p then Some p
      else case PackIP ip p of
             None \<Rightarrow> None
           | Some p1 \<Rightarrow> PackIPs_loop rest p1)"

definition PackIPs :: "IPDesc list \<Rightarrow> Packer \<Rightarrow> Packer option" where
  "PackIPs ips p =
     (case PackInt (word_of_int (len ips)) p of
        None \<Rightarrow> None
      | Some p1 \<Rightarrow> PackIPs_loop ips p1)"

fun UnpackIPs_loop ::
  "nat \<Rightarrow> IPDesc list \<Rightarrow> Packer \<Rightarrow> (IPDesc list \<times> Packer) option" where
  "UnpackIPs_loop 0 ips p = Some (ips, p)"
| "UnpackIPs_loop (Suc n) ips p =
     (if Errored p then Some (ips, p)
      else case UnpackIP p of
             None \<Rightarrow> None
           | Some (ip, p1) \<Rightarrow> UnpackIPs_loop n (ips @ [ip]) p1)"

definition UnpackIPs :: "Packer \<Rightarrow> (IPDesc list \<times> Packer) option" where
  "UnpackIPs p =
     (case UnpackInt p of
        None \<Rightarrow> None
      | Some (sliceSize, p1) \<Rightarrow> UnpackIPs_loop (unat sliceSize) [] p1)"

section \<open>The timestamp VM\<close>

subsection \<open>Blocks, codec and chain state\<close>

text \<open>
  Modelled from the spec: the packages \<open>ids\<close>, \<open>hashing\<close>, \<open>choices\<close>, \<open>codec\<close>,
  \<open>database\<close> and \<open>core\<close> (\<open>core.Block\<close>, \<open>core.SnowmanVM\<close>) and the file declaring
  the VM's \<open>Block\<close> are not among the sources; only their uses in the VM are. What follows
  takes from the spec what those uses need.

  An identifier is a 32-byte array, the all-zero one being \<open>ids.Empty\<close>. The identifier
  of a block is the hash of its serialized bytes; the hash function is a parameter
  \<open>hash\<close> of every operation that computes an identifier. A block carries its parent's
  identifier, 32 bytes of data and a timestamp in Unix seconds, and the derived fields
  \<open>blkID\<close>, \<open>blkBytes\<close> and \<open>status\<close>.
\<close>

type_synonym ID = "byte list"

definition ids_Empty :: ID where
  "ids_Empty = replicate 32 0"

definition dataLen :: int where "dataLen = 32"

datatype Status = Unknown | Processing | Accepted | Rejected

record Block =
  blkID :: ID
  blkBytes :: "byte list"
  status :: Status
  PrntID :: ID
  Data :: "byte list"
  Timestamp :: int

text \<open>
  Modelled from the spec: the zero value \<open>&Block{}\<close> of the block type, which is declared
  outside the sources. Unknown is the state before parsing.
\<close>

definition zero_Block :: Block where
  "zero_Block =
     \<lparr>blkID = ids_Empty, blkBytes = [], status = Unknown, PrntID = ids_Empty,
      Data = replicate 32 0, Timestamp = 0\<rparr>"

text \<open>
  Modelled from the spec: \<open>core.NewBlock(parentID)\<close>, which is not among the sources. It
  gives a block that only has its parent set. Its status is the zero value: the spec's
  reference encoding of the genesis block has four zero bytes in the place of the status.
\<close>

definition core_NewBlock :: "ID \<Rightarrow> Block" where
  "core_NewBlock parentID = zero_Block\<lparr>PrntID := parentID\<rparr>"

text \<open>
  \<open>codec.Codec\<close> is an interface, declared outside the sources and held in the field
  \<open>vm.codec\<close>: a pair of functions. \<open>Marshal\<close> gives the bytes or an error;
  \<open>Unmarshal\<close> fills the block it is handed and may give an error. The theorems hold
  for every codec.
\<close>

record Codec =
  Marshal :: "Block \<Rightarrow> error + byte list"
  Unmarshal :: "byte list \<Rightarrow> Block \<Rightarrow> Block \<times> error option"

text \<open>
  Modelled from the spec: \<open>codec.NewDefault()\<close>, the codec the VM runs with. The spec
  gives the layout of a serialized block, big-endian throughout: the parent's identifier
  (32 bytes), the status (int32), the data (32 bytes), the timestamp (int64), 76 bytes
  in all. It gives no numbering of the statuses; they are numbered in the order in
  which the spec lists them. Only instances at concrete inputs evaluate this codec.
\<close>

definition status_code :: "Status \<Rightarrow> 32 word" where
  "status_code s = (case s of Unknown \<Rightarrow> 0 | Processing \<Rightarrow> 1 | Accepted \<Rightarrow> 2 | Rejected \<Rightarrow> 3)"

definition status_of_code :: "32 word \<Rightarrow> Status" where
  "status_of_code w =
     (if w = 1 then Processing else if w = 2 then Accepted else if w = 3 then Rejected
      else Unknown)"

definition default_Marshal :: "Block \<Rightarrow> error + byte list" where
  "default_Marshal b =
     Inr (PrntID b @ bytes32 (status_code (status b)) @ Data b
          @ bytes64 (word_of_int (Timestamp b)))"

definition default_Unmarshal :: "byte list \<Rightarrow> Block \<Rightarrow> Block \<times> error option" where
  "default_Unmarshal bytes b =
     (if length bytes < 76 then (b, Some errBadLength)
      else case (Uint32 (take 4 (drop 32 bytes)), Uint64 (take 8 (drop 68 bytes))) of
             (Some st, Some ts) \<Rightarrow>
               (b\<lparr>status := status_of_code st, PrntID := take 32 bytes,
                  Data := take 32 (drop 36 bytes), Timestamp := sint ts\<rparr>, None)
           | _ \<Rightarrow> (b, Some errBadLength))"

definition codec_NewDefault :: Codec where
  "codec_NewDefault = \<lparr>Marshal = default_Marshal, Unmarshal = default_Unmarshal\<rparr>"

text \<open>
  The standard library's \<open>time.Time\<close>: seconds since the epoch and the nanoseconds
  within the second; \<open>time.Unix(s, n)\<close> makes one, \<open>t.Unix()\<close> gives its seconds.
\<close>

record Time =
  sec :: int
  nsec :: int

definition time_Unix :: "int \<Rightarrow> int \<Rightarrow> Time" where
  "time_Unix s n = \<lparr>sec = s, nsec = n\<rparr>"

definition Unix :: "Time \<Rightarrow> int" where
  "Unix t = sec t"

text \<open>
  Modelled from the spec: the database and the state of \<open>core.SnowmanVM\<close>, which are
  not among the sources. The database maps a block's identifier to its bytes and status,
  and holds the marker that it was initialized and the identifier that was last
  accepted. The VM writes to its own view \<open>DB\<close> of it; \<open>Commit\<close> flushes the view to
  the database underneath. \<open>ToEngine\<close> is the notification channel of capacity one:
  whether a token is pending. Failures of the database are not modelled: the operations
  that can return one never do.
\<close>

record Database =
  blocks :: "ID \<rightharpoonup> (byte list \<times> Status)"
  initialized :: bool
  lastAccepted :: ID

record VM =
  DB :: Database
  Underlying :: Database
  LastAcceptedID :: ID
  preferred :: ID
  ToEngine :: bool
  codec :: Codec
  mempool :: "byte list list"

text \<open>An empty database, and a VM on it that holds the default codec and nothing else.\<close>

definition empty_Database :: Database where
  "empty_Database = \<lparr>blocks = Map.empty, initialized = False, lastAccepted = ids_Empty\<rparr>"

definition new_VM :: VM where
  "new_VM =
     \<lparr>DB = empty_Database, Underlying = empty_Database, LastAcceptedID = ids_Empty,
      preferred = ids_Empty, ToEngine = False, codec = codec_NewDefault, mempool = []\<rparr>"

text \<open>
  Modelled from the spec: \<open>Block.Initialize(bytes, vm)\<close>, which is not among the sources.
  The VM hands it the serialized bytes and a pointer to its \<open>SnowmanVM\<close>, through which
  the store can be read. In the spec's words for parsing: the bytes are attached, the
  identifier is computed from them and looked up in the store; a block that is stored
  under it gets the durable status of the store, any other block the in-memory status
  Processing. The spec gives it no write to the VM.
\<close>

definition Block_Initialize ::
  "(byte list \<Rightarrow> ID) \<Rightarrow> byte list \<Rightarrow> VM \<Rightarrow> Block \<Rightarrow> Block" where
  "Block_Initialize hash bytes vm b =
     b\<lparr>blkBytes := bytes, blkID := hash bytes,
       status := (case blocks (DB vm) (hash bytes) of
                    Some (stored, st) \<Rightarrow> st
                  | None \<Rightarrow> Processing)\<rparr>"

text \<open>
  Modelled from the spec: the methods of \<open>core.SnowmanVM\<close> and of \<open>core.Block\<close> that the
  VM calls. \<open>SnowmanVM.Initialize\<close> takes the database and, when it is initialized,
  loads the last accepted identifier, which is also the preferred one; \<open>SaveBlock\<close>
  stores a block under its identifier; \<open>Accept\<close> marks the block Accepted in memory and
  in the store and makes it the last accepted and the preferred block.
\<close>

definition SnowmanVM_Initialize :: "Database \<Rightarrow> VM \<Rightarrow> error option \<times> VM" where
  "SnowmanVM_Initialize db vm =
     (let vm1 = vm\<lparr>DB := db, Underlying := db\<rparr> in
      if initialized db then
        (None, vm1\<lparr>LastAcceptedID := lastAccepted db, preferred := lastAccepted db\<rparr>)
      else (None, vm1))"

definition DBInitialized :: "VM \<Rightarrow> bool" where
  "DBInitialized vm = initialized (DB vm)"

definition SetDBInitialized :: "VM \<Rightarrow> VM" where
  "SetDBInitialized vm = vm\<lparr>DB := (DB vm)\<lparr>initialized := True\<rparr>\<rparr>"

definition SaveBlock :: "Block \<Rightarrow> VM \<Rightarrow> error option \<times> VM" where
  "SaveBlock b vm =
     (None, vm\<lparr>DB := (DB vm)\<lparr>blocks := (blocks (DB vm))(blkID b \<mapsto> (blkBytes b, status b))\<rparr>\<rparr>)"

definition Block_Accept :: "Block \<Rightarrow> VM \<Rightarrow> Block \<times> VM" where
  "Block_Accept b vm =
     (b\<lparr>status := Accepted\<rparr>,
      vm\<lparr>DB := (DB vm)\<lparr>blocks := (blocks (DB vm))(blkID b \<mapsto> (blkBytes b, Accepted)),
                         lastAccepted := blkID b\<rparr>,
         LastAcceptedID := blkID b,
         preferred := blkID b\<rparr>)"

definition DB_Commit :: "VM \<Rightarrow> error option \<times> VM" where
  "DB_Commit vm = (None, vm\<lparr>Underlying := DB vm\<rparr>)"

definition Preferred :: "VM \<Rightarrow> ID" where
  "Preferred vm = preferred vm"

definition NotifyBlockReady :: "VM \<Rightarrow> VM" where
  "NotifyBlockReady vm = vm\<lparr>ToEngine := True\<rparr>"

subsection \<open>The VM's operations\<close>

text \<open>
  \<open>NewBlock\<close> returns either \<open>(nil, err)\<close> or \<open>(block, nil)\<close>: a sum. It reads the
  codec from the VM, hands the VM to \<open>Block.Initialize\<close> and writes nothing to it.
\<close>

definition NewBlock ::
  "(byte list \<Rightarrow> ID) \<Rightarrow> ID \<Rightarrow> byte list \<Rightarrow> Time \<Rightarrow> VM \<Rightarrow> error + Block" where
  "NewBlock hash parentID data timestamp vm =
     (let block = (core_NewBlock parentID)\<lparr>Data := data, Timestamp := Unix timestamp\<rparr> in
      case Marshal (codec vm) block of
        Inl err \<Rightarrow> Inl err
      | Inr blockBytes \<Rightarrow> Inr (Block_Initialize hash blockBytes vm block))"

text \<open>
  \<open>BuildBlock\<close>; \<open>now\<close> is what \<open>time.Now()\<close> returns. The deferred
  \<open>NotifyBlockReady\<close> runs when the function returns, on either return path.
\<close>

definition BuildBlock ::
  "(byte list \<Rightarrow> ID) \<Rightarrow> Time \<Rightarrow> VM \<Rightarrow> (error + Block) \<times> VM" where
  "BuildBlock hash now vm =
     (if len (mempool vm) = 0 then (Inl errNoPendingBlocks, vm)
      else
        let val = hd (mempool vm);
            vm1 = vm\<lparr>mempool := tl (mempool vm)\<rparr>;
            res = NewBlock hash (Preferred vm1) val now vm1
        in (res, if len (mempool vm1) > 0 then NotifyBlockReady vm1 else vm1))"

definition proposeBlock :: "byte list \<Rightarrow> VM \<Rightarrow> VM" where
  "proposeBlock data vm = NotifyBlockReady (vm\<lparr>mempool := mempool vm @ [data]\<rparr>)"

text \<open>
  \<open>ParseBlock\<close> returns its block and the codec's error side by side; the block is a
  pointer that is never nil, which \<open>Some\<close> records. It hands the VM to
  \<open>Block.Initialize\<close>; nothing in it writes to the VM.
\<close>

definition ParseBlock ::
  "(byte list \<Rightarrow> ID) \<Rightarrow> byte list \<Rightarrow> VM \<Rightarrow> Block option \<times> error option" where
  "ParseBlock hash bytes vm =
     (case Unmarshal (codec vm) bytes zero_Block of
        (block, err) \<Rightarrow> (Some (Block_Initialize hash bytes vm block), err))"

text \<open>
  \<open>Initialize\<close>; \<open>NewDefault\<close> is what \<open>codec.NewDefault()\<close> returns. The array
  \<open>genesisDataArr\<close> starts as 32 zero bytes and \<open>copy\<close> stores as many bytes of the
  genesis data in it as fit.
\<close>

definition Initialize ::
  "(byte list \<Rightarrow> ID) \<Rightarrow> Codec \<Rightarrow> Database \<Rightarrow> byte list \<Rightarrow> VM \<Rightarrow> error option \<times> VM" where
  "Initialize hash NewDefault db genesisData vm0 =
     (case SnowmanVM_Initialize db vm0 of
        (Some err, vm1) \<Rightarrow> (Some err, vm1)
      | (None, vm1) \<Rightarrow>
          let vm2 = vm1\<lparr>codec := NewDefault\<rparr> in
          if \<not> DBInitialized vm2 then
            if len genesisData > dataLen then (Some errBadGenesisBytes, vm2)
            else
              let genesisDataArr =
                    overwrite (replicate 32 0) 0 (take (min 32 (length genesisData)) genesisData)
              in case NewBlock hash ids_Empty genesisDataArr (time_Unix 0 0) vm2 of
                   Inl err \<Rightarrow> (Some err, vm2)
                 | Inr genesisBlock \<Rightarrow>
                     (case SaveBlock genesisBlock vm2 of
                        (Some err, vm3) \<Rightarrow> (Some err, vm3)
                      | (None, vm3) \<Rightarrow>
                          (case Block_Accept genesisBlock vm3 of
                             (accepted, vm4) \<Rightarrow>
                               (case DB_Commit (SetDBInitialized vm4) of
                                  (Some err, vm5) \<Rightarrow> (Some err, vm5)
                                | (None, vm5) \<Rightarrow> (None, vm5))))
          else (None, vm2))"

section \<open>Vocabulary of the statements\<close>

text \<open>
  \<open>fresh maxSize\<close> is the packer \<open>Packer{MaxSize: maxSize}\<close> that a writer starts
  from, \<open>reader bytes\<close> the packer \<open>Packer{Bytes: bytes}\<close> that a reader starts from.
  \<open>frozen p p'\<close> says that \<open>p'\<close> is errored and has the buffer, the offset and the
  bound of \<open>p\<close>: all that may differ is the list of errors.
\<close>

definition fresh :: "int \<Rightarrow> Packer" where
  "fresh maxSize = \<lparr>Errs = [], MaxSize = maxSize, Bytes = [], Spare = [], Offset = 0\<rparr>"

definition reader :: "byte list \<Rightarrow> Packer" where
  "reader bytes = \<lparr>Errs = [], MaxSize = 0, Bytes = bytes, Spare = [], Offset = 0\<rparr>"

definition frozen :: "Packer \<Rightarrow> Packer \<Rightarrow> bool" where
  "frozen p p' \<longleftrightarrow> Errored p' \<and> Bytes p' = Bytes p \<and> Spare p' = Spare p
     \<and> Offset p' = Offset p \<and> MaxSize p' = MaxSize p"

text \<open>
  The typed values of the round-trip law, one constructor for each typed operation, and
  what a reader has to know to read one back: its kind, with the element size for fixed
  bytes and lists of fixed bytes. \<open>pack\<close> and \<open>unpack\<close> select the operation of the
  source; \<open>pack_all\<close> and \<open>unpack_all\<close> run a sequence of them in order.
\<close>

datatype val =
    VByte byte
  | VBool bool
  | VShort "16 word"
  | VInt "32 word"
  | VLong "64 word"
  | VFixedBytes "byte list"
  | VBytes "byte list"
  | VFixedByteSlices "byte list list"
  | VStr string
  | VIP IPDesc
  | VIPs "IPDesc list"

datatype kind =
    KByte | KBool | KShort | KInt | KLong
  | KFixedBytes int
  | KBytes
  | KFixedByteSlices int
  | KStr | KIP | KIPs

fun pack :: "val \<Rightarrow> Packer \<Rightarrow> Packer option" where
  "pack (VByte b) p = PackByte b p"
| "pack (VBool t) p = PackBool t p"
| "pack (VShort s) p = PackShort s p"
| "pack (VInt i) p = PackInt i p"
| "pack (VLong l) p = PackLong l p"
| "pack (VFixedBytes bs) p = PackFixedBytes bs p"
| "pack (VBytes bs) p = PackBytes bs p"
| "pack (VFixedByteSlices xss) p = PackFixedByteSlices xss p"
| "pack (VStr s) p = PackStr s p"
| "pack (VIP ip) p = PackIP ip p"
| "pack (VIPs ips) p = PackIPs ips p"

definition tagged :: "('a \<Rightarrow> val) \<Rightarrow> ('a \<times> Packer) option \<Rightarrow> (val \<times> Packer) option" where
  "tagged c r = (case r of None \<Rightarrow> None | Some (v, p) \<Rightarrow> Some (c v, p))"

fun unpack :: "kind \<Rightarrow> Packer \<Rightarrow> (val \<times> Packer) option" where
  "unpack KByte p = tagged VByte (UnpackByte p)"
| "unpack KBool p = tagged VBool (UnpackBool p)"
| "unpack KShort p = tagged VShort (UnpackShort p)"
| "unpack KInt p = tagged VInt (UnpackInt p)"
| "unpack KLong p = tagged VLong (UnpackLong p)"
| "unpack (KFixedBytes n) p = tagged VFixedBytes (UnpackFixedBytes n p)"
| "unpack KBytes p = tagged VBytes (UnpackBytes p)"
| "unpack (KFixedByteSlices n) p = tagged VFixedByteSlices (UnpackFixedByteSlices n p)"
| "unpack KStr p = tagged VStr (UnpackStr p)"
| "unpack KIP p = tagged VIP (UnpackIP p)"
| "unpack KIPs p = tagged VIPs (UnpackIPs p)"

fun pack_all :: "val list \<Rightarrow> Packer \<Rightarrow> Packer option" where
  "pack_all [] p = Some p"
| "pack_all (v # vs) p = (case pack v p of None \<Rightarrow> None | Some p1 \<Rightarrow> pack_all vs p1)"

fun unpack_all :: "kind list \<Rightarrow> Packer \<Rightarrow> (val list \<times> Packer) option" where
  "unpack_all [] p = Some ([], p)"
| "unpack_all (k # ks) p =
     (case unpack k p of
        None \<Rightarrow> None
      | Some (v, p1) \<Rightarrow>
          (case unpack_all ks p1 of
             None \<Rightarrow> None
           | Some (vs, p2) \<Rightarrow> Some (v # vs, p2)))"

text \<open>
  The kind under which a value is read back; the element size of a list of fixed bytes
  is the length of its first element (any size reads back the empty list).
\<close>

fun kind_of :: "val \<Rightarrow> kind" where
  "kind_of (VByte b) = KByte"
| "kind_of (VBool t) = KBool"
| "kind_of (VShort s) = KShort"
| "kind_of (VInt i) = KInt"
| "kind_of (VLong l) = KLong"
| "kind_of (VFixedBytes bs) = KFixedBytes (len bs)"
| "kind_of (VBytes bs) = KBytes"
| "kind_of (VFixedByteSlices xss) = KFixedByteSlices (case xss of [] \<Rightarrow> 0 | xs # _ \<Rightarrow> len xs)"
| "kind_of (VStr s) = KStr"
| "kind_of (VIP ip) = KIP"
| "kind_of (VIPs ips) = KIPs"

text \<open>
  The domain of each operation, from the spec's data model and encoding table: a length
  or count has to fit its prefix (32 bits for bytes and lists, 16 bits for a string),
  the elements of a list of fixed bytes all have the one size, and an address is 16
  bytes.
\<close>

fun in_domain :: "val \<Rightarrow> bool" where
  "in_domain (VBytes bs) = (length bs < 2 ^ 32)"
| "in_domain (VFixedByteSlices xss) =
     (length xss < 2 ^ 32 \<and> list_all (\<lambda>xs. length xs = length (hd xss)) xss)"
| "in_domain (VStr s) = (length s \<le> 65535)"
| "in_domain (VIP ip) = (length (IP ip) = 16)"
| "in_domain (VIPs ips) = (length ips < 2 ^ 32 \<and> list_all (\<lambda>ip. length (IP ip) = 16) ips)"
| "in_domain _ = True"

text \<open>The spec's encoding table: the bytes of a value, and its width.\<close>

definition wire_IP :: "IPDesc \<Rightarrow> byte list" where
  "wire_IP ip = IP ip @ bytes16 (Port ip)"

fun wire :: "val \<Rightarrow> byte list" where
  "wire (VByte b) = [b]"
| "wire (VBool t) = [if t then 1 else 0]"
| "wire (VShort s) = bytes16 s"
| "wire (VInt i) = bytes32 i"
| "wire (VLong l) = bytes64 l"
| "wire (VFixedBytes bs) = bs"
| "wire (VBytes bs) = bytes32 (of_nat (length bs)) @ bs"
| "wire (VFixedByteSlices xss) = bytes32 (of_nat (length xss)) @ concat xss"
| "wire (VStr s) = bytes16 (of_nat (length s)) @ bytes_of_string s"
| "wire (VIP ip) = wire_IP ip"
| "wire (VIPs ips) = bytes32 (of_nat (length ips)) @ concat (map wire_IP ips)"

fun width :: "val \<Rightarrow> nat" where
  "width (VByte b) = 1"
| "width (VBool t) = 1"
| "width (VShort s) = 2"
| "width (VInt i) = 4"
| "width (VLong l) = 8"
| "width (VFixedBytes bs) = length bs"
| "width (VBytes bs) = 4 + length bs"
| "width (VFixedByteSlices xss) = 4 + length xss * length (hd xss)"
| "width (VStr s) = 2 + length s"
| "width (VIP ip) = 18"
| "width (VIPs ips) = 4 + length ips * 18"

text \<open>
  \<open>at p pre rest\<close>: the packer \<open>p\<close> is error-free, its bytes are \<open>pre\<close> followed by
  \<open>rest\<close>, and its offset stands between the two.
\<close>

definition at :: "Packer \<Rightarrow> byte list \<Rightarrow> byte list \<Rightarrow> bool" where
  "at p pre rest \<longleftrightarrow> Errs p = [] \<and> Bytes p = pre @ rest \<and> Offset p = len pre"

text \<open>
  \<open>room p pre k\<close>: \<open>k\<close> more bytes after \<open>pre\<close> stay within \<open>MaxSize\<close>, which is
  a value of Go's \<open>int\<close>.
\<close>

definition room :: "Packer \<Rightarrow> byte list \<Rightarrow> nat \<Rightarrow> bool" where
  "room p pre k \<longleftrightarrow> len pre + int k \<le> MaxSize p \<and> MaxSize p < 2 ^ 63"

text \<open>
  The theorems about the VM hold for every hash function. Their instances need one:
  \<open>example_hash\<close> stands in for it there. \<open>example_block\<close> is a serialized block in
  the layout of the default codec: the all-zero parent, the status code of Processing,
  32 zero bytes of data, timestamp 0.
\<close>

definition example_hash :: "byte list \<Rightarrow> ID" where
  "example_hash bytes = take 32 (rev bytes @ replicate 32 0)"

definition example_block :: "byte list" where
  "example_block = replicate 32 0 @ [0, 0, 0, 1] @ replicate 32 0 @ replicate 8 0"

text \<open>
  The genesis block as \<open>Initialize\<close> hands it to the codec: \<open>core.NewBlock(ids.Empty)\<close>
  with the padded genesis data and the seconds of \<open>time.Unix(0, 0)\<close>.
\<close>

definition genesis_of :: "byte list \<Rightarrow> Block" where
  "genesis_of genesisData =
     (core_NewBlock ids_Empty)\<lparr>Data := genesisData @ replicate (32 - length genesisData) 0,
                                Timestamp := 0\<rparr>"

section \<open>Properties of the Packer\<close>

subsection \<open>Errors, space checks and growth\<close>

lemma Add_fields [simp]:
  "Errs (Add e p) = Errs p @ [e]" "MaxSize (Add e p) = MaxSize p" "Bytes (Add e p) = Bytes p"
  "Spare (Add e p) = Spare p" "Offset (Add e p) = Offset p"
  by (simp_all add: Add_def)

lemma Errored_Add [simp]: "Errored (Add e p)"
  by (simp add: Errored_def)

lemma CheckSpace_fields [simp]:
  "MaxSize (CheckSpace n p) = MaxSize p" "Bytes (CheckSpace n p) = Bytes p"
  "Spare (CheckSpace n p) = Spare p" "Offset (CheckSpace n p) = Offset p"
  by (simp_all add: CheckSpace_def)

lemma CheckSpace_Errored: "Errored p \<Longrightarrow> Errored (CheckSpace n p)"
  by (simp add: CheckSpace_def Errored_def)

lemma CheckSpace_ok:
  "\<not> Errored (CheckSpace n p) \<Longrightarrow>
     CheckSpace n p = p \<and> 0 \<le> Offset p \<and> 0 \<le> n \<and> n \<le> len (Bytes p) - Offset p"
  by (auto simp: CheckSpace_def split: if_splits)

lemma Expand_fields [simp]:
  "MaxSize (Expand n p) = MaxSize p" "Offset (Expand n p) = Offset p"
  by (simp_all add: Expand_def Let_def)

lemma Expand_Errored:
  "Errored p \<Longrightarrow> Errored (Expand n p) \<and> Bytes (Expand n p) = Bytes p \<and> Spare (Expand n p) = Spare p"
  by (simp add: Expand_def Let_def CheckSpace_Errored)

lemma frozen_trans: "frozen p p1 \<Longrightarrow> frozen p1 p2 \<Longrightarrow> frozen p p2"
  by (simp add: frozen_def)

lemma frozen_Expand: "Errored p \<Longrightarrow> frozen p (Expand n p)"
  by (simp add: frozen_def Expand_Errored)

lemma frozen_CheckSpace: "Errored p \<Longrightarrow> frozen p (CheckSpace n p)"
  by (simp add: frozen_def CheckSpace_Errored)

lemma frozen_Errored: "frozen p p' \<Longrightarrow> Errored p'"
  by (simp add: frozen_def)

lemma noop_PackByte: "Errored p \<Longrightarrow> \<exists>p'. PackByte v p = Some p' \<and> frozen p p'"
  by (simp add: PackByte_def Let_def Expand_Errored frozen_Expand)

lemma noop_PackShort: "Errored p \<Longrightarrow> \<exists>p'. PackShort v p = Some p' \<and> frozen p p'"
  by (simp add: PackShort_def Let_def Expand_Errored frozen_Expand)

lemma noop_PackInt: "Errored p \<Longrightarrow> \<exists>p'. PackInt v p = Some p' \<and> frozen p p'"
  by (simp add: PackInt_def Let_def Expand_Errored frozen_Expand)

lemma noop_PackLong: "Errored p \<Longrightarrow> \<exists>p'. PackLong v p = Some p' \<and> frozen p p'"
  by (simp add: PackLong_def Let_def Expand_Errored frozen_Expand)

lemma noop_PackBool: "Errored p \<Longrightarrow> \<exists>p'. PackBool v p = Some p' \<and> frozen p p'"
  by (simp add: PackBool_def noop_PackByte)

lemma noop_PackFixedBytes: "Errored p \<Longrightarrow> \<exists>p'. PackFixedBytes v p = Some p' \<and> frozen p p'"
  by (simp add: PackFixedBytes_def Let_def Expand_Errored frozen_Expand)

lemma noop_PackBytes: "Errored p \<Longrightarrow> \<exists>p'. PackBytes v p = Some p' \<and> frozen p p'"
proof -
  assume e: "Errored p"
  obtain p1 where 1: "PackInt (word_of_int (len v)) p = Some p1" "frozen p p1"
    using noop_PackInt [OF e] by blast
  obtain p2 where 2: "PackFixedBytes v p1 = Some p2" "frozen p1 p2"
    using noop_PackFixedBytes [OF frozen_Errored [OF 1(2)]] by blast
  show ?thesis
    using 1 2 by (simp add: PackBytes_def frozen_trans [OF 1(2) 2(2)])
qed

lemma noop_PackFixedByteSlices_loop:
  "Errored p \<Longrightarrow> \<exists>p'. PackFixedByteSlices_loop vs p = Some p' \<and> frozen p p'"
proof (induction vs arbitrary: p)
  case Nil
  then show ?case by (simp add: frozen_def)
next
  case (Cons v vs)
  obtain p1 where 1: "PackFixedBytes v p = Some p1" "frozen p p1"
    using noop_PackFixedBytes [OF Cons.prems] by blast
  obtain p2 where 2: "PackFixedByteSlices_loop vs p1 = Some p2" "frozen p1 p2"
    using Cons.IH [OF frozen_Errored [OF 1(2)]] by blast
  show ?case
    using 1 2 by (simp add: frozen_trans [OF 1(2) 2(2)])
qed

lemma noop_PackFixedByteSlices:
  "Errored p \<Longrightarrow> \<exists>p'. PackFixedByteSlices vs p = Some p' \<and> frozen p p'"
proof -
  assume e: "Errored p"
  obtain p1 where 1: "PackInt (word_of_int (len vs)) p = Some p1" "frozen p p1"
    using noop_PackInt [OF e] by blast
  obtain p2 where 2: "PackFixedByteSlices_loop vs p1 = Some p2" "frozen p1 p2"
    using noop_PackFixedByteSlices_loop [OF frozen_Errored [OF 1(2)]] by blast
  show ?thesis
    using 1 2 by (simp add: PackFixedByteSlices_def frozen_trans [OF 1(2) 2(2)])
qed

lemma frozen_Add: "Errored p \<Longrightarrow> frozen p (Add e p)"
  by (simp add: frozen_def)

lemma noop_PackStr: "Errored p \<Longrightarrow> \<exists>p'. PackStr s p = Some p' \<and> frozen p p'"
proof -
  assume e: "Errored p"
  define p0 where "p0 = (if len s > MaxStringLen then Add errInvalidInput p else p)"
  have 0: "frozen p p0"
    using e by (simp add: p0_def frozen_def)
  obtain p1 where 1: "PackShort (word_of_int (len s)) p0 = Some p1" "frozen p0 p1"
    using noop_PackShort [OF frozen_Errored [OF 0]] by blast
  obtain p2 where 2: "PackFixedBytes (bytes_of_string s) p1 = Some p2" "frozen p1 p2"
    using noop_PackFixedBytes [OF frozen_Errored [OF 1(2)]] by blast
  have "PackStr s p = Some p2"
    using 1 2 by (simp add: PackStr_def Let_def p0_def)
  then show ?thesis
    using frozen_trans [OF frozen_trans [OF 0 1(2)] 2(2)] by simp
qed

lemma noop_PackIP: "Errored p \<Longrightarrow> \<exists>p'. PackIP ip p = Some p' \<and> frozen p p'"
proof -
  assume e: "Errored p"
  obtain p1 where 1: "PackFixedBytes (To16 (IP ip)) p = Some p1" "frozen p p1"
    using noop_PackFixedBytes [OF e] by blast
  obtain p2 where 2: "PackShort (Port ip) p1 = Some p2" "frozen p1 p2"
    using noop_PackShort [OF frozen_Errored [OF 1(2)]] by blast
  show ?thesis
    using 1 2 by (simp add: PackIP_def frozen_trans [OF 1(2) 2(2)])
qed

lemma PackIPs_loop_Errored: "Errored p \<Longrightarrow> PackIPs_loop ips p = Some p"
  by (cases ips) simp_all

lemma noop_PackIPs: "Errored p \<Longrightarrow> \<exists>p'. PackIPs ips p = Some p' \<and> frozen p p'"
proof -
  assume e: "Errored p"
  obtain p1 where 1: "PackInt (word_of_int (len ips)) p = Some p1" "frozen p p1"
    using noop_PackInt [OF e] by blast
  show ?thesis
    using 1 by (simp add: PackIPs_def PackIPs_loop_Errored frozen_Errored)
qed

lemma zero_UnpackByte: "Errored p \<Longrightarrow> \<exists>p'. UnpackByte p = Some (0, p') \<and> frozen p p'"
  by (simp add: UnpackByte_def Let_def CheckSpace_Errored frozen_CheckSpace)

lemma zero_UnpackShort: "Errored p \<Longrightarrow> \<exists>p'. UnpackShort p = Some (0, p') \<and> frozen p p'"
  by (simp add: UnpackShort_def Let_def CheckSpace_Errored frozen_CheckSpace)

lemma zero_UnpackInt: "Errored p \<Longrightarrow> \<exists>p'. UnpackInt p = Some (0, p') \<and> frozen p p'"
  by (simp add: UnpackInt_def Let_def CheckSpace_Errored frozen_CheckSpace)

lemma zero_UnpackLong: "Errored p \<Longrightarrow> \<exists>p'. UnpackLong p = Some (0, p') \<and> frozen p p'"
  by (simp add: UnpackLong_def Let_def CheckSpace_Errored frozen_CheckSpace)

lemma zero_UnpackBool: "Errored p \<Longrightarrow> \<exists>p'. UnpackBool p = Some (False, p') \<and> frozen p p'"
  using zero_UnpackByte [of p] by (auto simp: UnpackBool_def)

lemma zero_UnpackFixedBytes:
  "Errored p \<Longrightarrow> \<exists>p'. UnpackFixedBytes n p = Some ([], p') \<and> frozen p p'"
  by (simp add: UnpackFixedBytes_def Let_def CheckSpace_Errored frozen_CheckSpace)

lemma zero_UnpackBytes: "Errored p \<Longrightarrow> \<exists>p'. UnpackBytes p = Some ([], p') \<and> frozen p p'"
proof -
  assume e: "Errored p"
  obtain p1 where 1: "UnpackInt p = Some (0, p1)" "frozen p p1"
    using zero_UnpackInt [OF e] by blast
  obtain p2 where 2: "UnpackFixedBytes 0 p1 = Some ([], p2)" "frozen p1 p2"
    using zero_UnpackFixedBytes [OF frozen_Errored [OF 1(2)]] by blast
  show ?thesis
    using 1 2 by (simp add: UnpackBytes_def frozen_trans [OF 1(2) 2(2)])
qed

lemma zero_UnpackFixedByteSlices:
  "Errored p \<Longrightarrow> \<exists>p'. UnpackFixedByteSlices n p = Some ([], p') \<and> frozen p p'"
proof -
  assume e: "Errored p"
  obtain p1 where 1: "UnpackInt p = Some (0, p1)" "frozen p p1"
    using zero_UnpackInt [OF e] by blast
  show ?thesis
    using 1 by (simp add: UnpackFixedByteSlices_def)
qed

lemma zero_UnpackStr: "Errored p \<Longrightarrow> \<exists>p'. UnpackStr p = Some ([], p') \<and> frozen p p'"
proof -
  assume e: "Errored p"
  obtain p1 where 1: "UnpackShort p = Some (0, p1)" "frozen p p1"
    using zero_UnpackShort [OF e] by blast
  obtain p2 where 2: "UnpackFixedBytes 0 p1 = Some ([], p2)" "frozen p1 p2"
    using zero_UnpackFixedBytes [OF frozen_Errored [OF 1(2)]] by blast
  show ?thesis
    using 1 2 by (simp add: UnpackStr_def string_of_bytes_def frozen_trans [OF 1(2) 2(2)])
qed

lemma zero_UnpackIP:
  "Errored p \<Longrightarrow> \<exists>p'. UnpackIP p = Some (\<lparr>IP = [], Port = 0\<rparr>, p') \<and> frozen p p'"
proof -
  assume e: "Errored p"
  obtain p1 where 1: "UnpackFixedBytes 16 p = Some ([], p1)" "frozen p p1"
    using zero_UnpackFixedBytes [OF e] by blast
  obtain p2 where 2: "UnpackShort p1 = Some (0, p2)" "frozen p1 p2"
    using zero_UnpackShort [OF frozen_Errored [OF 1(2)]] by blast
  show ?thesis
    using 1 2 by (simp add: UnpackIP_def frozen_trans [OF 1(2) 2(2)])
qed

lemma zero_UnpackIPs: "Errored p \<Longrightarrow> \<exists>p'. UnpackIPs p = Some ([], p') \<and> frozen p p'"
proof -
  assume e: "Errored p"
  obtain p1 where 1: "UnpackInt p = Some (0, p1)" "frozen p p1"
    using zero_UnpackInt [OF e] by blast
  show ?thesis
    using 1 by (simp add: UnpackIPs_def)
qed

text \<open>
  C2: once a packer holds an error, every pack operation leaves \<open>Bytes\<close> and
  \<open>Offset\<close> as they are, and every unpack operation returns the zero value of its type
  (0, false, no bytes, the empty string, an empty list, an address with no bytes and
  port 0) and leaves \<open>Offset\<close> as it is. The packer stays errored; the list of errors
  is all that can change.
\<close>

theorem errored_packer_frozen:
  assumes "Errored p"
  shows "(\<exists>p'. PackByte b p = Some p' \<and> frozen p p')
    \<and> (\<exists>p'. PackBool t p = Some p' \<and> frozen p p')
    \<and> (\<exists>p'. PackShort s p = Some p' \<and> frozen p p')
    \<and> (\<exists>p'. PackInt i p = Some p' \<and> frozen p p')
    \<and> (\<exists>p'. PackLong l p = Some p' \<and> frozen p p')
    \<and> (\<exists>p'. PackBytes bs p = Some p' \<and> frozen p p')
    \<and> (\<exists>p'. PackFixedBytes fb p = Some p' \<and> frozen p p')
    \<and> (\<exists>p'. PackFixedByteSlices fbs p = Some p' \<and> frozen p p')
    \<and> (\<exists>p'. PackStr str p = Some p' \<and> frozen p p')
    \<and> (\<exists>p'. PackIP ip p = Some p' \<and> frozen p p')
    \<and> (\<exists>p'. PackIPs ips p = Some p' \<and> frozen p p')
    \<and> (\<exists>p'. UnpackByte p = Some (0, p') \<and> frozen p p')
    \<and> (\<exists>p'. UnpackBool p = Some (False, p') \<and> frozen p p')
    \<and> (\<exists>p'. UnpackShort p = Some (0, p') \<and> frozen p p')
    \<and> (\<exists>p'. UnpackInt p = Some (0, p') \<and> frozen p p')
    \<and> (\<exists>p'. UnpackLong p = Some (0, p') \<and> frozen p p')
    \<and> (\<exists>p'. UnpackBytes p = Some ([], p') \<and> frozen p p')
    \<and> (\<exists>p'. UnpackFixedBytes n p = Some ([], p') \<and> frozen p p')
    \<and> (\<exists>p'. UnpackFixedByteSlices m p = Some ([], p') \<and> frozen p p')
    \<and> (\<exists>p'. UnpackStr p = Some ([], p') \<and> frozen p p')
    \<and> (\<exists>p'. UnpackIP p = Some (\<lparr>IP = [], Port = 0\<rparr>, p') \<and> frozen p p')
    \<and> (\<exists>p'. UnpackIPs p = Some ([], p') \<and> frozen p p')"
  by (intro conjI noop_PackByte noop_PackBool noop_PackShort noop_PackInt noop_PackLong
      noop_PackBytes noop_PackFixedBytes noop_PackFixedByteSlices noop_PackStr noop_PackIP
      noop_PackIPs zero_UnpackByte zero_UnpackBool zero_UnpackShort zero_UnpackInt
      zero_UnpackLong zero_UnpackBytes zero_UnpackFixedBytes zero_UnpackFixedByteSlices
      zero_UnpackStr zero_UnpackIP zero_UnpackIPs assms)

theorem errored_packer_frozen_witness:
  "Errored (Add errBadBool (reader [2, 7]))
    \<and> (\<exists>p'. PackByte 1 (Add errBadBool (reader [2, 7])) = Some p'
          \<and> frozen (Add errBadBool (reader [2, 7])) p')
    \<and> (\<exists>p'. PackStr ''ok'' (Add errBadBool (reader [2, 7])) = Some p'
          \<and> frozen (Add errBadBool (reader [2, 7])) p')
    \<and> (\<exists>p'. UnpackByte (Add errBadBool (reader [2, 7])) = Some (0, p')
          \<and> frozen (Add errBadBool (reader [2, 7])) p')
    \<and> (\<exists>p'. UnpackIPs (Add errBadBool (reader [2, 7])) = Some ([], p')
          \<and> frozen (Add errBadBool (reader [2, 7])) p')"
proof -
  have h: "Errored (Add errBadBool (reader [2, 7]))"
    by (simp add: Errored_def Add_def reader_def)
  show ?thesis
    using h errored_packer_frozen [OF h, of 1 _ _ _ _ _ _ _ "''ok''"] by blast
qed

subsection \<open>Reads never panic\<close>

lemma Expand_not_Errored: "\<not> Errored (Expand n p) \<Longrightarrow> \<not> Errored p"
  using Expand_Errored by blast

lemma Expand_Errs: "Errored (Expand n p) \<Longrightarrow> Bytes (Expand n p) = Bytes p \<and> Spare (Expand n p) = Spare p"
  by (auto simp: Expand_def Let_def Errored_def CheckSpace_def split: if_splits)

lemma Expand_ok_Errs: "\<not> Errored (Expand n p) \<Longrightarrow> Errs (Expand n p) = Errs p"
  by (auto simp: Expand_def Let_def Errored_def CheckSpace_def split: if_splits)

lemma CheckSpace_ok_Errs: "\<not> Errored (CheckSpace n p) \<Longrightarrow> Errs (CheckSpace n p) = Errs p"
  by (auto simp: Errored_def CheckSpace_def split: if_splits)

text \<open>What each primitive read returns; in particular, it returns.\<close>

lemma UnpackByte_cases:
  "(Errored (CheckSpace ByteLen p) \<and> UnpackByte p = Some (0, CheckSpace ByteLen p))
   \<or> (\<not> Errored (CheckSpace ByteLen p) \<and> (\<exists>v. UnpackByte p = Some (v, p\<lparr>Offset := Offset p + 1\<rparr>)))"
proof (cases "Errored (CheckSpace ByteLen p)")
  case True
  then show ?thesis by (simp add: UnpackByte_def)
next
  case False
  then have "CheckSpace ByteLen p = p" "0 \<le> Offset p" "ByteLen \<le> len (Bytes p) - Offset p"
    using CheckSpace_ok by blast+
  with False show ?thesis
    by (simp add: UnpackByte_def index_def ByteLen_def)
qed

lemma UnpackShort_cases:
  "(Errored (CheckSpace ShortLen p) \<and> UnpackShort p = Some (0, CheckSpace ShortLen p))
   \<or> (\<not> Errored (CheckSpace ShortLen p) \<and> (\<exists>v. UnpackShort p = Some (v, p\<lparr>Offset := Offset p + ShortLen\<rparr>)))"
proof (cases "Errored (CheckSpace ShortLen p)")
  case True
  then show ?thesis by (simp add: UnpackShort_def)
next
  case False
  then have "CheckSpace ShortLen p = p" "0 \<le> Offset p" "ShortLen \<le> len (Bytes p) - Offset p"
    using CheckSpace_ok by blast+
  with False show ?thesis
    by (simp add: UnpackShort_def slice_from_def Uint16_def ShortLen_def len_def)
qed

lemma UnpackInt_cases:
  "(Errored (CheckSpace IntLen p) \<and> UnpackInt p = Some (0, CheckSpace IntLen p))
   \<or> (\<not> Errored (CheckSpace IntLen p) \<and> (\<exists>v. UnpackInt p = Some (v, p\<lparr>Offset := Offset p + IntLen\<rparr>)))"
proof (cases "Errored (CheckSpace IntLen p)")
  case True
  then show ?thesis by (simp add: UnpackInt_def)
next
  case False
  then have "CheckSpace IntLen p = p" "0 \<le> Offset p" "IntLen \<le> len (Bytes p) - Offset p"
    using CheckSpace_ok by blast+
  with False show ?thesis
    by (simp add: UnpackInt_def slice_from_def Uint32_def IntLen_def len_def)
qed

lemma UnpackLong_cases:
  "(Errored (CheckSpace LongLen p) \<and> UnpackLong p = Some (0, CheckSpace LongLen p))
   \<or> (\<not> Errored (CheckSpace LongLen p) \<and> (\<exists>v. UnpackLong p = Some (v, p\<lparr>Offset := Offset p + LongLen\<rparr>)))"
proof (cases "Errored (CheckSpace LongLen p)")
  case True
  then show ?thesis by (simp add: UnpackLong_def)
next
  case False
  then have "CheckSpace LongLen p = p" "0 \<le> Offset p" "LongLen \<le> len (Bytes p) - Offset p"
    using CheckSpace_ok by blast+
  with False show ?thesis
    by (simp add: UnpackLong_def slice_from_def Uint64_def LongLen_def len_def)
qed

lemma UnpackFixedBytes_cases:
  "(Errored (CheckSpace n p) \<and> UnpackFixedBytes n p = Some ([], CheckSpace n p))
   \<or> (\<not> Errored (CheckSpace n p) \<and> (\<exists>v. UnpackFixedBytes n p = Some (v, p\<lparr>Offset := Offset p + n\<rparr>)))"
proof (cases "Errored (CheckSpace n p)")
  case True
  then show ?thesis by (simp add: UnpackFixedBytes_def)
next
  case False
  then have "CheckSpace n p = p" "0 \<le> Offset p" "0 \<le> n" "n \<le> len (Bytes p) - Offset p"
    using CheckSpace_ok by blast+
  with False show ?thesis
    by (simp add: UnpackFixedBytes_def slice_def len_def)
qed

lemma Errored_Offset_update [simp]: "Errored (p\<lparr>Offset := k\<rparr>) = Errored p"
  by (simp add: Errored_def)

lemma CheckSpace_not_Errored: "\<not> Errored (CheckSpace n p) \<Longrightarrow> \<not> Errored p"
  using CheckSpace_Errored by blast

lemma total_UnpackByte: "\<exists>v p'. UnpackByte p = Some (v, p') \<and> (Errored p' \<longrightarrow> v = 0)"
proof (cases "Errored (CheckSpace ByteLen p)")
  case True
  then have "UnpackByte p = Some (0, CheckSpace ByteLen p)"
    using UnpackByte_cases [of p] by blast
  then show ?thesis by simp
next
  case False
  then obtain v where "UnpackByte p = Some (v, p\<lparr>Offset := Offset p + 1\<rparr>)"
    using UnpackByte_cases [of p] by blast
  moreover have "\<not> Errored p"
    using False CheckSpace_Errored by blast
  ultimately show ?thesis by simp
qed

lemma total_UnpackShort: "\<exists>v p'. UnpackShort p = Some (v, p') \<and> (Errored p' \<longrightarrow> v = 0)"
proof (cases "Errored (CheckSpace ShortLen p)")
  case True
  then have "UnpackShort p = Some (0, CheckSpace ShortLen p)"
    using UnpackShort_cases [of p] by blast
  then show ?thesis by simp
next
  case False
  then obtain v where "UnpackShort p = Some (v, p\<lparr>Offset := Offset p + ShortLen\<rparr>)"
    using UnpackShort_cases [of p] by blast
  moreover have "\<not> Errored p"
    using False CheckSpace_Errored by blast
  ultimately show ?thesis by simp
qed

lemma total_UnpackInt: "\<exists>v p'. UnpackInt p = Some (v, p') \<and> (Errored p' \<longrightarrow> v = 0)"
proof (cases "Errored (CheckSpace IntLen p)")
  case True
  then have "UnpackInt p = Some (0, CheckSpace IntLen p)"
    using UnpackInt_cases [of p] by blast
  then show ?thesis by simp
next
  case False
  then obtain v where "UnpackInt p = Some (v, p\<lparr>Offset := Offset p + IntLen\<rparr>)"
    using UnpackInt_cases [of p] by blast
  moreover have "\<not> Errored p"
    using False CheckSpace_Errored by blast
  ultimately show ?thesis by simp
qed

lemma total_UnpackLong: "\<exists>v p'. UnpackLong p = Some (v, p') \<and> (Errored p' \<longrightarrow> v = 0)"
proof (cases "Errored (CheckSpace LongLen p)")
  case True
  then have "UnpackLong p = Some (0, CheckSpace LongLen p)"
    using UnpackLong_cases [of p] by blast
  then show ?thesis by simp
next
  case False
  then obtain v where "UnpackLong p = Some (v, p\<lparr>Offset := Offset p + LongLen\<rparr>)"
    using UnpackLong_cases [of p] by blast
  moreover have "\<not> Errored p"
    using False CheckSpace_Errored by blast
  ultimately show ?thesis by simp
qed

lemma total_UnpackFixedBytes: "\<exists>v p'. UnpackFixedBytes n p = Some (v, p') \<and> (Errored p' \<longrightarrow> v = [])"
proof (cases "Errored (CheckSpace n p)")
  case True
  then have "UnpackFixedBytes n p = Some ([], CheckSpace n p)"
    using UnpackFixedBytes_cases [of n p] by blast
  then show ?thesis by simp
next
  case False
  then obtain v where "UnpackFixedBytes n p = Some (v, p\<lparr>Offset := Offset p + n\<rparr>)"
    using UnpackFixedBytes_cases [of n p] by blast
  moreover have "\<not> Errored p"
    using False CheckSpace_Errored by blast
  ultimately show ?thesis by simp
qed

lemma total_UnpackBool: "\<exists>v p'. UnpackBool p = Some (v, p') \<and> (Errored p' \<longrightarrow> v = False)"
proof -
  obtain b p1 where 1: "UnpackByte p = Some (b, p1)" "Errored p1 \<longrightarrow> b = 0"
    using total_UnpackByte by blast
  show ?thesis
  proof (cases "b = 0")
    case True
    with 1 have "UnpackBool p = Some (False, p1)" by (simp add: UnpackBool_def)
    then show ?thesis by blast
  next
    case False
    with 1 have n: "\<not> Errored p1" by blast
    show ?thesis
    proof (cases "b = 1")
      case True
      with 1 have "UnpackBool p = Some (True, p1)" by (simp add: UnpackBool_def)
      with n show ?thesis by blast
    next
      case False
      with 1 \<open>b \<noteq> 0\<close> have "UnpackBool p = Some (False, Add errBadBool p1)"
        by (simp add: UnpackBool_def)
      then show ?thesis by blast
    qed
  qed
qed

lemma total_UnpackBytes: "\<exists>v p'. UnpackBytes p = Some (v, p') \<and> (Errored p' \<longrightarrow> v = [])"
proof -
  obtain n p1 where 1: "UnpackInt p = Some (n, p1)"
    using total_UnpackInt by blast
  obtain v p2 where 2: "UnpackFixedBytes (uint n) p1 = Some (v, p2)" "Errored p2 \<longrightarrow> v = []"
    using total_UnpackFixedBytes by blast
  show ?thesis
    using 1 2 by (simp add: UnpackBytes_def)
qed

lemma total_UnpackStr: "\<exists>v p'. UnpackStr p = Some (v, p') \<and> (Errored p' \<longrightarrow> v = [])"
proof -
  obtain n p1 where 1: "UnpackShort p = Some (n, p1)"
    using total_UnpackShort by blast
  obtain v p2 where 2: "UnpackFixedBytes (uint n) p1 = Some (v, p2)" "Errored p2 \<longrightarrow> v = []"
    using total_UnpackFixedBytes by blast
  show ?thesis
    using 1 2 by (simp add: UnpackStr_def string_of_bytes_def)
qed

lemma total_UnpackIP: "\<exists>v p'. UnpackIP p = Some (v, p') \<and> (Errored p' \<longrightarrow> Port v = 0)"
proof -
  obtain ip p1 where 1: "UnpackFixedBytes 16 p = Some (ip, p1)"
    using total_UnpackFixedBytes by blast
  obtain port p2 where 2: "UnpackShort p1 = Some (port, p2)" "Errored p2 \<longrightarrow> port = 0"
    using total_UnpackShort by blast
  show ?thesis
    using 1 2 by (simp add: UnpackIP_def)
qed

lemma total_UnpackFixedByteSlices_loop:
  "\<exists>v p'. UnpackFixedByteSlices_loop k n acc p = Some (v, p')"
proof (induction k arbitrary: acc p)
  case 0
  then show ?case by simp
next
  case (Suc k)
  obtain b p1 where 1: "UnpackFixedBytes n p = Some (b, p1)"
    using total_UnpackFixedBytes by blast
  show ?case
    using 1 Suc.IH [of "acc @ [b]" p1] by simp
qed

lemma total_UnpackFixedByteSlices: "\<exists>v p'. UnpackFixedByteSlices n p = Some (v, p')"
proof -
  obtain k p1 where 1: "UnpackInt p = Some (k, p1)"
    using total_UnpackInt by blast
  show ?thesis
    using 1 total_UnpackFixedByteSlices_loop [of "unat k" n "[]" p1]
    by (simp add: UnpackFixedByteSlices_def)
qed

lemma total_UnpackIPs_loop: "\<exists>v p'. UnpackIPs_loop k acc p = Some (v, p')"
proof (induction k arbitrary: acc p)
  case 0
  then show ?case by simp
next
  case (Suc k)
  obtain b p1 where 1: "UnpackIP p = Some (b, p1)"
    using total_UnpackIP by blast
  show ?case
    using 1 Suc.IH [of "acc @ [b]" p1] by simp
qed

lemma total_UnpackIPs: "\<exists>v p'. UnpackIPs p = Some (v, p')"
proof -
  obtain k p1 where 1: "UnpackInt p = Some (k, p1)"
    using total_UnpackInt by blast
  show ?thesis
    using 1 total_UnpackIPs_loop [of "unat k" "[]" p1]
    by (simp add: UnpackIPs_def)
qed

lemma UnpackFixedByteSlices_loop_stops:
  "Errored p \<Longrightarrow> UnpackFixedByteSlices_loop k n acc p = Some (acc, p)"
  by (cases k) simp_all

lemma UnpackIPs_loop_stops: "Errored p \<Longrightarrow> UnpackIPs_loop k acc p = Some (acc, p)"
  by (cases k) simp_all

text \<open>
  A list of two 2-byte elements is announced and three bytes follow. The second read
  fails; the call records the error and returns the first element followed by the
  empty result of the failed read: not the zero value of its type, the empty list.
\<close>

theorem unpack_zero_on_error_counterexample:
  "UnpackFixedByteSlices 2 (reader [0, 0, 0, 2, 1, 2, 3])
     = Some ([[1, 2], []],
             \<lparr>Errs = [errBadLength], MaxSize = 0, Bytes = [0, 0, 0, 2, 1, 2, 3], Spare = [],
              Offset = 6\<rparr>)"
  by code_simp

text \<open>
  C9, as the code has it: on every packer, whatever its bytes, offset and errors, each
  unpack operation returns (it never panics). When the packer is errored afterwards,
  the reads of a byte, bool, short, int, long, of fixed bytes, of bytes and of a string
  have returned the zero value, and \<open>UnpackIP\<close> has returned port 0 (its address may be
  the 16 bytes that were read before the port was missing). The list reads return what
  they decoded up to the failure; their loops stop as soon as the packer is errored.
\<close>

theorem unpack_never_panics:
  "(\<exists>v p'. UnpackByte p = Some (v, p') \<and> (Errored p' \<longrightarrow> v = 0))
    \<and> (\<exists>v p'. UnpackBool p = Some (v, p') \<and> (Errored p' \<longrightarrow> v = False))
    \<and> (\<exists>v p'. UnpackShort p = Some (v, p') \<and> (Errored p' \<longrightarrow> v = 0))
    \<and> (\<exists>v p'. UnpackInt p = Some (v, p') \<and> (Errored p' \<longrightarrow> v = 0))
    \<and> (\<exists>v p'. UnpackLong p = Some (v, p') \<and> (Errored p' \<longrightarrow> v = 0))
    \<and> (\<exists>v p'. UnpackFixedBytes n p = Some (v, p') \<and> (Errored p' \<longrightarrow> v = []))
    \<and> (\<exists>v p'. UnpackBytes p = Some (v, p') \<and> (Errored p' \<longrightarrow> v = []))
    \<and> (\<exists>v p'. UnpackStr p = Some (v, p') \<and> (Errored p' \<longrightarrow> v = []))
    \<and> (\<exists>v p'. UnpackIP p = Some (v, p') \<and> (Errored p' \<longrightarrow> Port v = 0))
    \<and> (\<exists>v p'. UnpackFixedByteSlices n p = Some (v, p'))
    \<and> (\<exists>v p'. UnpackIPs p = Some (v, p'))
    \<and> (Errored p \<longrightarrow> UnpackFixedByteSlices_loop k n acc p = Some (acc, p))
    \<and> (Errored p \<longrightarrow> UnpackIPs_loop k ips p = Some (ips, p))"
  by (intro conjI impI total_UnpackByte total_UnpackBool total_UnpackShort total_UnpackInt
      total_UnpackLong total_UnpackFixedBytes total_UnpackBytes total_UnpackStr total_UnpackIP
      total_UnpackFixedByteSlices total_UnpackIPs UnpackFixedByteSlices_loop_stops
      UnpackIPs_loop_stops)

theorem unpack_never_panics_witness:
  "Errored (Add errBadLength (reader [1]))
    \<and> UnpackFixedByteSlices_loop 3 2 [[7, 7]] (Add errBadLength (reader [1]))
        = Some ([[7, 7]], Add errBadLength (reader [1]))
    \<and> UnpackIPs_loop 3 [] (Add errBadLength (reader [1])) = Some ([], Add errBadLength (reader [1]))
    \<and> (\<exists>v p'. UnpackFixedByteSlices 2 (Add errBadLength (reader [1])) = Some (v, p'))
    \<and> (\<exists>v p'. UnpackIPs (Add errBadLength (reader [1])) = Some (v, p'))"
proof -
  have h: "Errored (Add errBadLength (reader [1]))"
    by (simp add: Errored_def Add_def reader_def)
  show ?thesis
    using h unpack_never_panics [of "Add errBadLength (reader [1])" 2 3 "[[7, 7]]" "[]"]
    by blast
qed

subsection \<open>Offsets of failing operations\<close>

lemma Errs_Offset_update [simp]: "Errs (p\<lparr>Offset := k\<rparr>) = Errs p"
  by simp

lemma CheckSpace_err_offset: "Offset (CheckSpace n p) = Offset p"
  by simp

lemma PackByte_err_offset:
  assumes "PackByte b p = Some p'" and "Errs p' \<noteq> Errs p"
  shows "Offset p' = Offset p"
proof (cases "Errored (Expand ByteLen p)")
  case True
  with assms(1) have "p' = Expand ByteLen p" by (simp add: PackByte_def)
  then show ?thesis by simp
next
  case False
  with assms(1) have "Errs p' = Errs (Expand ByteLen p)"
    by (auto simp: PackByte_def Let_def split: option.splits)
  with False assms(2) show ?thesis by (simp add: Expand_ok_Errs)
qed

lemma PackShort_err_offset:
  assumes "PackShort b p = Some p'" and "Errs p' \<noteq> Errs p"
  shows "Offset p' = Offset p"
proof (cases "Errored (Expand ShortLen p)")
  case True
  with assms(1) have "p' = Expand ShortLen p" by (simp add: PackShort_def)
  then show ?thesis by simp
next
  case False
  with assms(1) have "Errs p' = Errs (Expand ShortLen p)"
    by (auto simp: PackShort_def Let_def split: option.splits)
  with False assms(2) show ?thesis by (simp add: Expand_ok_Errs)
qed

lemma PackInt_err_offset:
  assumes "PackInt b p = Some p'" and "Errs p' \<noteq> Errs p"
  shows "Offset p' = Offset p"
proof (cases "Errored (Expand IntLen p)")
  case True
  with assms(1) have "p' = Expand IntLen p" by (simp add: PackInt_def)
  then show ?thesis by simp
next
  case False
  with assms(1) have "Errs p' = Errs (Expand IntLen p)"
    by (auto simp: PackInt_def Let_def split: option.splits)
  with False assms(2) show ?thesis by (simp add: Expand_ok_Errs)
qed

lemma PackLong_err_offset:
  assumes "PackLong b p = Some p'" and "Errs p' \<noteq> Errs p"
  shows "Offset p' = Offset p"
proof (cases "Errored (Expand LongLen p)")
  case True
  with assms(1) have "p' = Expand LongLen p" by (simp add: PackLong_def)
  then show ?thesis by simp
next
  case False
  with assms(1) have "Errs p' = Errs (Expand LongLen p)"
    by (auto simp: PackLong_def Let_def split: option.splits)
  with False assms(2) show ?thesis by (simp add: Expand_ok_Errs)
qed

lemma PackFixedBytes_err_offset:
  assumes "PackFixedBytes b p = Some p'" and "Errs p' \<noteq> Errs p"
  shows "Offset p' = Offset p"
proof (cases "Errored (Expand (len b) p)")
  case True
  with assms(1) have "p' = Expand (len b) p" by (simp add: PackFixedBytes_def)
  then show ?thesis by simp
next
  case False
  with assms(1) have "Errs p' = Errs (Expand (len b) p)"
    by (auto simp: PackFixedBytes_def Let_def split: option.splits)
  with False assms(2) show ?thesis by (simp add: Expand_ok_Errs)
qed

lemma PackBool_err_offset:
  "PackBool b p = Some p' \<Longrightarrow> Errs p' \<noteq> Errs p \<Longrightarrow> Offset p' = Offset p"
  by (cases b) (simp_all add: PackBool_def PackByte_err_offset)

lemma UnpackByte_err_offset:
  assumes "UnpackByte p = Some (v, p')" and "Errs p' \<noteq> Errs p"
  shows "Offset p' = Offset p"
proof (cases "Errored (CheckSpace ByteLen p)")
  case True
  with assms(1) UnpackByte_cases [of p] have "p' = CheckSpace ByteLen p" by simp
  then show ?thesis by simp
next
  case False
  with assms(1) UnpackByte_cases [of p] have "Errs p' = Errs p" by auto
  with assms(2) show ?thesis by simp
qed

lemma UnpackShort_err_offset:
  assumes "UnpackShort p = Some (v, p')" and "Errs p' \<noteq> Errs p"
  shows "Offset p' = Offset p"
proof (cases "Errored (CheckSpace ShortLen p)")
  case True
  with assms(1) UnpackShort_cases [of p] have "p' = CheckSpace ShortLen p" by simp
  then show ?thesis by simp
next
  case False
  with assms(1) UnpackShort_cases [of p] have "Errs p' = Errs p" by auto
  with assms(2) show ?thesis by simp
qed

lemma UnpackInt_err_offset:
  assumes "UnpackInt p = Some (v, p')" and "Errs p' \<noteq> Errs p"
  shows "Offset p' = Offset p"
proof (cases "Errored (CheckSpace IntLen p)")
  case True
  with assms(1) UnpackInt_cases [of p] have "p' = CheckSpace IntLen p" by simp
  then show ?thesis by simp
next
  case False
  with assms(1) UnpackInt_cases [of p] have "Errs p' = Errs p" by auto
  with assms(2) show ?thesis by simp
qed

lemma UnpackLong_err_offset:
  assumes "UnpackLong p = Some (v, p')" and "Errs p' \<noteq> Errs p"
  shows "Offset p' = Offset p"
proof (cases "Errored (CheckSpace LongLen p)")
  case True
  with assms(1) UnpackLong_cases [of p] have "p' = CheckSpace LongLen p" by simp
  then show ?thesis by simp
next
  case False
  with assms(1) UnpackLong_cases [of p] have "Errs p' = Errs p" by auto
  with assms(2) show ?thesis by simp
qed

lemma UnpackFixedBytes_err_offset:
  assumes "UnpackFixedBytes n p = Some (v, p')" and "Errs p' \<noteq> Errs p"
  shows "Offset p' = Offset p"
proof (cases "Errored (CheckSpace n p)")
  case True
  with assms(1) UnpackFixedBytes_cases [of n p] have "p' = CheckSpace n p" by simp
  then show ?thesis by simp
next
  case False
  with assms(1) UnpackFixedBytes_cases [of n p] have "Errs p' = Errs p" by auto
  with assms(2) show ?thesis by simp
qed

lemma UnpackBool_err_offset:
  assumes "UnpackBool p = Some (v, p')" and "Errs p' \<noteq> Errs p"
  shows "v = False \<and> (Offset p' = Offset p
           \<or> (Offset p' = Offset p + 1 \<and> Errs p' = Errs p @ [errBadBool]))"
proof (cases "Errored (CheckSpace ByteLen p)")
  case True
  then have "UnpackByte p = Some (0, CheckSpace ByteLen p)"
    using UnpackByte_cases [of p] by blast
  with assms(1) have "v = False" "p' = CheckSpace ByteLen p"
    by (simp_all add: UnpackBool_def)
  then show ?thesis by simp
next
  case False
  then obtain b where b: "UnpackByte p = Some (b, p\<lparr>Offset := Offset p + 1\<rparr>)"
    using UnpackByte_cases [of p] by blast
  show ?thesis
  proof (cases "b = 0 \<or> b = 1")
    case True
    with b assms(1) have "Errs p' = Errs p"
      by (auto simp: UnpackBool_def split: if_splits)
    with assms(2) show ?thesis by simp
  next
    case False
    with b assms(1) have "v = False" "p' = Add errBadBool (p\<lparr>Offset := Offset p + 1\<rparr>)"
      by (simp_all add: UnpackBool_def)
    then show ?thesis by simp
  qed
qed

text \<open>
  \<open>UnpackBool\<close> on the byte 2 records \<open>errBadBool\<close> after \<open>UnpackByte\<close> has consumed
  the byte: the offset has moved from 0 to 1.
\<close>

theorem UnpackBool_advances_counterexample:
  "UnpackBool \<lparr>Errs = [], MaxSize = 0, Bytes = [2], Spare = [], Offset = 0\<rparr>
     = Some (False, \<lparr>Errs = [errBadBool], MaxSize = 0, Bytes = [2], Spare = [], Offset = 1\<rparr>)"
  by code_simp

text \<open>
  C4, as the code has it: an operation made of a single step (\<open>CheckSpace\<close>,
  \<open>Expand\<close>, packing a byte, bool, short, int, long or fixed bytes, unpacking a byte,
  short, int, long or fixed bytes) leaves the offset where it was whenever it records
  an error. \<open>UnpackBool\<close> returns false whenever it records an error, and has then
  either left the offset where it was or, when the error is \<open>errBadBool\<close>, moved it
  past the one byte it read.
\<close>

theorem failing_step_keeps_offset:
  "(Errs (CheckSpace n p) \<noteq> Errs p \<longrightarrow> Offset (CheckSpace n p) = Offset p)
    \<and> (Errs (Expand n p) \<noteq> Errs p \<longrightarrow> Offset (Expand n p) = Offset p)
    \<and> (\<forall>p'. PackByte b p = Some p' \<and> Errs p' \<noteq> Errs p \<longrightarrow> Offset p' = Offset p)
    \<and> (\<forall>p'. PackBool t p = Some p' \<and> Errs p' \<noteq> Errs p \<longrightarrow> Offset p' = Offset p)
    \<and> (\<forall>p'. PackShort s p = Some p' \<and> Errs p' \<noteq> Errs p \<longrightarrow> Offset p' = Offset p)
    \<and> (\<forall>p'. PackInt i p = Some p' \<and> Errs p' \<noteq> Errs p \<longrightarrow> Offset p' = Offset p)
    \<and> (\<forall>p'. PackLong l p = Some p' \<and> Errs p' \<noteq> Errs p \<longrightarrow> Offset p' = Offset p)
    \<and> (\<forall>p'. PackFixedBytes fb p = Some p' \<and> Errs p' \<noteq> Errs p \<longrightarrow> Offset p' = Offset p)
    \<and> (\<forall>v p'. UnpackByte p = Some (v, p') \<and> Errs p' \<noteq> Errs p \<longrightarrow> Offset p' = Offset p)
    \<and> (\<forall>v p'. UnpackShort p = Some (v, p') \<and> Errs p' \<noteq> Errs p \<longrightarrow> Offset p' = Offset p)
    \<and> (\<forall>v p'. UnpackInt p = Some (v, p') \<and> Errs p' \<noteq> Errs p \<longrightarrow> Offset p' = Offset p)
    \<and> (\<forall>v p'. UnpackLong p = Some (v, p') \<and> Errs p' \<noteq> Errs p \<longrightarrow> Offset p' = Offset p)
    \<and> (\<forall>v p'. UnpackFixedBytes n p = Some (v, p') \<and> Errs p' \<noteq> Errs p
          \<longrightarrow> Offset p' = Offset p)
    \<and> (\<forall>v p'. UnpackBool p = Some (v, p') \<and> Errs p' \<noteq> Errs p
          \<longrightarrow> v = False \<and> (Offset p' = Offset p
                \<or> (Offset p' = Offset p + 1 \<and> Errs p' = Errs p @ [errBadBool])))"
proof -
  have "\<forall>p'. PackByte b p = Some p' \<and> Errs p' \<noteq> Errs p \<longrightarrow> Offset p' = Offset p"
    using PackByte_err_offset by blast
  moreover have "\<forall>p'. PackBool t p = Some p' \<and> Errs p' \<noteq> Errs p \<longrightarrow> Offset p' = Offset p"
    using PackBool_err_offset by blast
  moreover have "\<forall>p'. PackShort s p = Some p' \<and> Errs p' \<noteq> Errs p \<longrightarrow> Offset p' = Offset p"
    using PackShort_err_offset by blast
  moreover have "\<forall>p'. PackInt i p = Some p' \<and> Errs p' \<noteq> Errs p \<longrightarrow> Offset p' = Offset p"
    using PackInt_err_offset by blast
  moreover have "\<forall>p'. PackLong l p = Some p' \<and> Errs p' \<noteq> Errs p \<longrightarrow> Offset p' = Offset p"
    using PackLong_err_offset by blast
  moreover have "\<forall>p'. PackFixedBytes fb p = Some p' \<and> Errs p' \<noteq> Errs p
                   \<longrightarrow> Offset p' = Offset p"
    using PackFixedBytes_err_offset by blast
  moreover have "\<forall>v p'. UnpackByte p = Some (v, p') \<and> Errs p' \<noteq> Errs p
                   \<longrightarrow> Offset p' = Offset p"
    using UnpackByte_err_offset by blast
  moreover have "\<forall>v p'. UnpackShort p = Some (v, p') \<and> Errs p' \<noteq> Errs p
                   \<longrightarrow> Offset p' = Offset p"
    using UnpackShort_err_offset by blast
  moreover have "\<forall>v p'. UnpackInt p = Some (v, p') \<and> Errs p' \<noteq> Errs p
                   \<longrightarrow> Offset p' = Offset p"
    using UnpackInt_err_offset by blast
  moreover have "\<forall>v p'. UnpackLong p = Some (v, p') \<and> Errs p' \<noteq> Errs p
                   \<longrightarrow> Offset p' = Offset p"
    using UnpackLong_err_offset by blast
  moreover have "\<forall>v p'. UnpackFixedBytes n p = Some (v, p') \<and> Errs p' \<noteq> Errs p
                   \<longrightarrow> Offset p' = Offset p"
    using UnpackFixedBytes_err_offset by blast
  moreover have "\<forall>v p'. UnpackBool p = Some (v, p') \<and> Errs p' \<noteq> Errs p
          \<longrightarrow> v = False \<and> (Offset p' = Offset p
                \<or> (Offset p' = Offset p + 1 \<and> Errs p' = Errs p @ [errBadBool]))"
    using UnpackBool_err_offset by blast
  ultimately show ?thesis
    by (intro conjI; (assumption | simp))
qed

theorem failing_step_keeps_offset_witness:
  "UnpackByte (reader []) = Some (0, Add errBadLength (reader []))
    \<and> Errs (Add errBadLength (reader [])) \<noteq> Errs (reader [])
    \<and> Offset (Add errBadLength (reader [])) = Offset (reader [])"
proof -
  have e: "UnpackByte (reader []) = Some (0, Add errBadLength (reader []))"
    by code_simp
  have d: "Errs (Add errBadLength (reader [])) \<noteq> Errs (reader [])"
    by simp
  from failing_step_keeps_offset [of 0 "reader []"] e d
  have "Offset (Add errBadLength (reader [])) = Offset (reader [])"
    by blast
  with e d show ?thesis by blast
qed

subsection \<open>Growth\<close>

lemma add64_exact: "- (2 ^ 63) \<le> a + b \<Longrightarrow> a + b < 2 ^ 63 \<Longrightarrow> add64 a b = a + b"
  by (simp add: add64_def)

lemma Expand_unchanged:
  "\<not> Errored (CheckSpace 0 p) \<Longrightarrow> add64 n (Offset p) \<le> len (Bytes p) \<Longrightarrow> Expand n p = p"
  using CheckSpace_ok [of 0 p] by (simp add: Expand_def Let_def)

lemma Expand_too_big:
  "\<not> Errored (CheckSpace 0 p) \<Longrightarrow> len (Bytes p) < add64 n (Offset p)
     \<Longrightarrow> MaxSize p < add64 n (Offset p) \<Longrightarrow> Expand n p = Add errBadLength p"
  using CheckSpace_ok [of 0 p] by (simp add: Expand_def Let_def)

lemma Expand_grows:
  assumes "\<not> Errored (CheckSpace 0 p)" and "len (Bytes p) < add64 n (Offset p)"
    and "add64 n (Offset p) \<le> MaxSize p"
  shows "Errs (Expand n p) = Errs p
    \<and> len (Bytes (Expand n p)) = add64 n (Offset p)
    \<and> take (length (Bytes p)) (Bytes (Expand n p)) = Bytes p"
proof -
  have c: "CheckSpace 0 p = p"
    using assms(1) CheckSpace_ok by blast
  show ?thesis
  proof (cases "add64 n (Offset p) > cap p")
    case True
    with assms c show ?thesis
      by (simp add: Expand_def Let_def cap_def len_def)
  next
    case False
    with assms c show ?thesis
      by (simp add: Expand_def Let_def cap_def len_def min_def; linarith)
  qed
qed

lemma Expand_len_bounds:
  assumes "len (Bytes p) \<le> MaxSize p"
  shows "len (Bytes p) \<le> len (Bytes (Expand n p)) \<and> len (Bytes (Expand n p)) \<le> MaxSize p"
proof (cases "Errored (CheckSpace 0 p)")
  case True
  then have "Bytes (Expand n p) = Bytes p"
    by (simp add: Expand_def)
  with assms show ?thesis by simp
next
  case False
  consider "add64 n (Offset p) \<le> len (Bytes p)"
    | "len (Bytes p) < add64 n (Offset p)" "MaxSize p < add64 n (Offset p)"
    | "len (Bytes p) < add64 n (Offset p)" "add64 n (Offset p) \<le> MaxSize p"
    by linarith
  then show ?thesis
  proof cases
    case 1
    with False assms show ?thesis by (simp add: Expand_unchanged)
  next
    case 2
    with False assms show ?thesis by (simp add: Expand_too_big)
  next
    case 3
    with False assms Expand_grows [of p n] show ?thesis by simp
  qed
qed

text \<open>
  A packer that already holds an error satisfies \<open>0 \<le> Offset \<le> len(Bytes) \<le> MaxSize\<close>
  and has room for 4 more bytes below \<open>MaxSize\<close>, yet \<open>Expand(4)\<close> does not grow it.
\<close>

theorem Expand_errored_counterexample:
  "0 \<le> Offset (Add errBadBool (fresh 10))
    \<and> Offset (Add errBadBool (fresh 10)) \<le> len (Bytes (Add errBadBool (fresh 10)))
    \<and> len (Bytes (Add errBadBool (fresh 10))) \<le> MaxSize (Add errBadBool (fresh 10))
    \<and> len (Bytes (Add errBadBool (fresh 10))) < Offset (Add errBadBool (fresh 10)) + 4
    \<and> Offset (Add errBadBool (fresh 10)) + 4 \<le> MaxSize (Add errBadBool (fresh 10))
    \<and> len (Bytes (Expand 4 (Add errBadBool (fresh 10)))) \<noteq> Offset (Add errBadBool (fresh 10)) + 4"
  by (simp add: fresh_def len_def Expand_def Errored_def CheckSpace_def)

text \<open>
  C3, as the code has it: for a packer with \<open>0 \<le> Offset \<le> len(Bytes) \<le> MaxSize\<close> and
  \<open>n \<ge> 0\<close>, the length of \<open>Bytes\<close> after \<open>Expand(n)\<close> is never less than before and
  never more than \<open>MaxSize\<close>. On an errored packer \<open>Expand\<close> changes neither the bytes
  nor the offset. On an error-free packer, when \<open>Offset + n\<close> does not exceed the
  largest \<open>int\<close>: if \<open>Offset + n \<le> len(Bytes)\<close> nothing changes; if
  \<open>Offset + n > MaxSize\<close> only \<open>errBadLength\<close> is recorded; otherwise the length becomes
  exactly \<open>Offset + n\<close>, no error is recorded and the bytes that were there stay.
\<close>

theorem Expand_behaviour:
  assumes "0 \<le> Offset p" and "Offset p \<le> len (Bytes p)" and "len (Bytes p) \<le> MaxSize p"
    and "0 \<le> n"
  shows "(len (Bytes p) \<le> len (Bytes (Expand n p)) \<and> len (Bytes (Expand n p)) \<le> MaxSize p)
    \<and> (Errored p \<longrightarrow> Bytes (Expand n p) = Bytes p \<and> Offset (Expand n p) = Offset p)
    \<and> (\<not> Errored p \<and> Offset p + n < 2 ^ 63 \<longrightarrow>
          (Offset p + n \<le> len (Bytes p) \<longrightarrow> Expand n p = p)
        \<and> (MaxSize p < Offset p + n \<longrightarrow> Expand n p = Add errBadLength p)
        \<and> (len (Bytes p) < Offset p + n \<and> Offset p + n \<le> MaxSize p \<longrightarrow>
              \<not> Errored (Expand n p)
            \<and> len (Bytes (Expand n p)) = Offset p + n
            \<and> take (length (Bytes p)) (Bytes (Expand n p)) = Bytes p))"
proof (intro conjI impI)
  show "len (Bytes p) \<le> len (Bytes (Expand n p))" "len (Bytes (Expand n p)) \<le> MaxSize p"
    using Expand_len_bounds [OF assms(3)] by simp_all
next
  assume "Errored p"
  then show "Bytes (Expand n p) = Bytes p" "Offset (Expand n p) = Offset p"
    by (simp_all add: Expand_Errored)
next
  assume a: "\<not> Errored p \<and> Offset p + n < 2 ^ 63"
  then have c: "\<not> Errored (CheckSpace 0 p)"
    using assms by (simp add: CheckSpace_def)
  have w: "add64 n (Offset p) = Offset p + n"
    using a assms add64_exact [of n "Offset p"] by simp
  {
    assume "Offset p + n \<le> len (Bytes p)"
    then show "Expand n p = p"
      using c w by (simp add: Expand_unchanged)
  next
    assume "MaxSize p < Offset p + n"
    then show "Expand n p = Add errBadLength p"
      using c w assms(3) by (simp add: Expand_too_big)
  next
    assume "len (Bytes p) < Offset p + n \<and> Offset p + n \<le> MaxSize p"
    then have g: "Errs (Expand n p) = Errs p \<and> len (Bytes (Expand n p)) = add64 n (Offset p)
        \<and> take (length (Bytes p)) (Bytes (Expand n p)) = Bytes p"
      using c w Expand_grows [of p n] by simp
    show "\<not> Errored (Expand n p)"
      using g a by (simp add: Errored_def)
    show "len (Bytes (Expand n p)) = Offset p + n"
      using g w by simp
    show "take (length (Bytes p)) (Bytes (Expand n p)) = Bytes p"
      using g by simp
  }
qed

theorem Expand_behaviour_witness:
  "0 \<le> Offset (fresh 10) \<and> Offset (fresh 10) \<le> len (Bytes (fresh 10))
    \<and> len (Bytes (fresh 10)) \<le> MaxSize (fresh 10) \<and> (0::int) \<le> 4
    \<and> \<not> Errored (fresh 10) \<and> Offset (fresh 10) + 4 < 2 ^ 63
    \<and> len (Bytes (fresh 10)) < Offset (fresh 10) + 4 \<and> Offset (fresh 10) + 4 \<le> MaxSize (fresh 10)
    \<and> \<not> Errored (Expand 4 (fresh 10))
    \<and> len (Bytes (Expand 4 (fresh 10))) = Offset (fresh 10) + 4
    \<and> len (Bytes (Expand 4 (fresh 10))) \<le> MaxSize (fresh 10)"
proof -
  have h: "0 \<le> Offset (fresh 10)" "Offset (fresh 10) \<le> len (Bytes (fresh 10))"
    "len (Bytes (fresh 10)) \<le> MaxSize (fresh 10)" "(0::int) \<le> 4"
    by (simp_all add: fresh_def len_def)
  have k: "\<not> Errored (fresh 10)" "Offset (fresh 10) + 4 < 2 ^ 63"
    "len (Bytes (fresh 10)) < Offset (fresh 10) + 4" "Offset (fresh 10) + 4 \<le> MaxSize (fresh 10)"
    by (simp_all add: fresh_def len_def Errored_def)
  show ?thesis
    using h k Expand_behaviour [OF h] by blast
qed


subsection \<open>Round trips\<close>

text \<open>Big-endian bytes and strings read back what was written.\<close>

lemma length_bytes [simp]:
  "length (bytes16 s) = 2" "length (bytes32 i) = 4" "length (bytes64 l) = 8"
  by (simp_all add: bytes16_def bytes32_def bytes64_def)

lemma Uint16_bytes16: "Uint16 (bytes16 v @ rest) = Some v"
proof -
  have "ucast (ucast v :: byte) OR push_bit 8 (ucast (ucast (drop_bit 8 v) :: byte)) = v"
    (is "?l = _")
  proof (rule bit_word_eqI)
    fix n :: nat
    assume "n < LENGTH(16)"
    then consider "n < 8" | "8 \<le> n" "n < 16"
      by simp linarith
    then show "bit ?l n = bit v n"
      by cases (auto simp: bit_simps)
  qed
  then show ?thesis
    by (simp add: Uint16_def bytes16_def)
qed

lemma Uint32_bytes32: "Uint32 (bytes32 v @ rest) = Some v"
proof -
  have "ucast (ucast v :: byte) OR push_bit 8 (ucast (ucast (drop_bit 8 v) :: byte))
        OR push_bit 16 (ucast (ucast (drop_bit 16 v) :: byte))
        OR push_bit 24 (ucast (ucast (drop_bit 24 v) :: byte)) = v" (is "?l = _")
  proof (rule bit_word_eqI)
    fix n :: nat
    assume "n < LENGTH(32)"
    then consider "n < 8" | "8 \<le> n" "n < 16" | "16 \<le> n" "n < 24" | "24 \<le> n" "n < 32"
      by simp linarith
    then show "bit ?l n = bit v n"
      by cases (auto simp: bit_simps)
  qed
  then show ?thesis
    by (simp add: Uint32_def bytes32_def)
qed

lemma Uint64_bytes64: "Uint64 (bytes64 v @ rest) = Some v"
proof -
  have "ucast (ucast v :: byte) OR push_bit 8 (ucast (ucast (drop_bit 8 v) :: byte))
        OR push_bit 16 (ucast (ucast (drop_bit 16 v) :: byte))
        OR push_bit 24 (ucast (ucast (drop_bit 24 v) :: byte))
        OR push_bit 32 (ucast (ucast (drop_bit 32 v) :: byte))
        OR push_bit 40 (ucast (ucast (drop_bit 40 v) :: byte))
        OR push_bit 48 (ucast (ucast (drop_bit 48 v) :: byte))
        OR push_bit 56 (ucast (ucast (drop_bit 56 v) :: byte)) = v" (is "?l = _")
  proof (rule bit_word_eqI)
    fix n :: nat
    assume "n < LENGTH(64)"
    then consider "n < 8" | "8 \<le> n" "n < 16" | "16 \<le> n" "n < 24" | "24 \<le> n" "n < 32"
      | "32 \<le> n" "n < 40" | "40 \<le> n" "n < 48" | "48 \<le> n" "n < 56" | "56 \<le> n" "n < 64"
      by simp linarith
    then show "bit ?l n = bit v n"
      by cases (auto simp: bit_simps)
  qed
  then show ?thesis
    by (simp add: Uint64_def bytes64_def)
qed

lemma string_of_bytes_of_string: "string_of_bytes (bytes_of_string s) = s"
proof -
  have "char_of (unat (of_char c :: byte)) = c" for c
  proof -
    have "(of_char c :: byte) = of_nat (of_char c)"
      by (simp add: of_nat_of_char)
    then have "unat (of_char c :: byte) = of_char c mod 256"
      by (simp add: unat_of_nat)
    then show ?thesis by simp
  qed
  then show ?thesis
    by (simp add: string_of_bytes_def bytes_of_string_def comp_def)
qed

lemma length_bytes_of_string [simp]: "length (bytes_of_string s) = length s"
  by (simp add: bytes_of_string_def)

lemma unat_of_nat_32: "n < 2 ^ 32 \<Longrightarrow> unat (of_nat n :: 32 word) = n"
  by (simp add: unat_of_nat)

lemma uint_of_nat_32: "n < 2 ^ 32 \<Longrightarrow> uint (of_nat n :: 32 word) = int n"
  by (simp add: uint_nat unat_of_nat)

lemma uint_of_nat_16: "n \<le> 65535 \<Longrightarrow> uint (of_nat n :: 16 word) = int n"
  by (simp add: uint_nat unat_of_nat)

subsection \<open>Writing at the offset\<close>

lemma at_CheckSpace: "at p pre rest \<Longrightarrow> 0 \<le> n \<Longrightarrow> n \<le> len rest \<Longrightarrow> CheckSpace n p = p"
  by (simp add: at_def CheckSpace_def len_def)

lemma at_not_Errored: "at p pre rest \<Longrightarrow> \<not> Errored p"
  by (simp add: at_def Errored_def)

lemma Expand_at:
  assumes "at p pre rest" and "0 \<le> n" and "len pre + n \<le> MaxSize p" and "len pre + n < 2 ^ 63"
  shows "\<exists>ext. at (Expand n p) pre (rest @ ext) \<and> MaxSize (Expand n p) = MaxSize p
           \<and> length (rest @ ext) = max (length rest) (nat n)"
proof -
  have c: "\<not> Errored (CheckSpace 0 p)"
    using assms(1) at_CheckSpace [of p pre rest 0] at_not_Errored [of p pre rest]
    by (simp add: len_def)
  have w: "add64 n (Offset p) = len pre + n"
    using assms add64_exact [of n "Offset p"] by (simp add: at_def len_def)
  show ?thesis
  proof (cases "len pre + n \<le> len (Bytes p)")
    case True
    then have "Expand n p = p"
      using c w by (simp add: Expand_unchanged)
    moreover have "max (length rest) (nat n) = length rest"
      using True assms(1,2) by (simp add: at_def len_def)
    ultimately have "at (Expand n p) pre (rest @ []) \<and> MaxSize (Expand n p) = MaxSize p
           \<and> length (rest @ []) = max (length rest) (nat n)"
      using assms(1) by simp
    then show ?thesis by blast
  next
    case False
    then have g: "Errs (Expand n p) = Errs p" "len (Bytes (Expand n p)) = len pre + n"
      "take (length (Bytes p)) (Bytes (Expand n p)) = Bytes p"
      using c w assms(3) Expand_grows [of p n] by simp_all
    define ext where "ext = drop (length (Bytes p)) (Bytes (Expand n p))"
    have "Bytes (Expand n p) = Bytes p @ ext"
      using g(3) append_take_drop_id [of "length (Bytes p)" "Bytes (Expand n p)"]
      by (simp add: ext_def)
    then have b: "Bytes (Expand n p) = pre @ rest @ ext"
      using assms(1) by (simp add: at_def)
    have "length (rest @ ext) = nat n"
      using g(2) b assms(2) by (simp add: len_def)
    moreover have "length rest \<le> nat n"
      using False assms(1,2) by (simp add: at_def len_def)
    ultimately have "at (Expand n p) pre (rest @ ext) \<and> MaxSize (Expand n p) = MaxSize p
           \<and> length (rest @ ext) = max (length rest) (nat n)"
      using g(1) b assms(1) by (simp add: at_def)
    then show ?thesis by blast
  qed
qed

lemma overwrite_at:
  "length w \<le> length r \<Longrightarrow> overwrite (pre @ r) (len pre) w = pre @ w @ drop (length w) r"
  by (simp add: overwrite_def len_def)

lemma drop_grown:
  "length (rest @ ext) = max (length rest) k \<Longrightarrow> drop k (rest @ ext) = drop k rest"
  by (cases "k \<le> length rest") auto

lemma put_at:
  "at p pre r \<Longrightarrow> length w \<le> length r \<Longrightarrow> put p w = Some (pre @ w @ drop (length w) r)"
  by (simp add: put_def at_def slice_from_def len_def overwrite_def)

lemma copy_at_at:
  "at p pre r \<Longrightarrow> length w \<le> length r \<Longrightarrow> copy_at p w = Some (pre @ w @ drop (length w) r)"
  by (simp add: copy_at_def at_def slice_from_def len_def overwrite_def min_def)

lemma room_less: "room p pre (j + k) \<Longrightarrow> room p pre j"
  by (simp add: room_def)

lemma room_step: "room p pre (j + k) \<Longrightarrow> MaxSize p' = MaxSize p \<Longrightarrow> length w = j \<Longrightarrow> room p' (pre @ w) k"
  by (simp add: room_def len_def)

lemma PackFixedBytes_at:
  assumes "at p pre rest" and "room p pre (length w)"
  shows "\<exists>p'. PackFixedBytes w p = Some p' \<and> at p' (pre @ w) (drop (length w) rest)
           \<and> MaxSize p' = MaxSize p"
proof -
  obtain ext where e: "at (Expand (len w) p) pre (rest @ ext)"
    "MaxSize (Expand (len w) p) = MaxSize p"
    "length (rest @ ext) = max (length rest) (length w)"
    using Expand_at [OF assms(1), of "len w"] assms(2) by (auto simp: room_def len_def)
  have l: "length w \<le> length (rest @ ext)"
    using e(3) by simp
  have a: "add64 (Offset (Expand (len w) p)) (len w) = len (pre @ w)"
    using assms e(1) add64_exact [of "len pre" "len w"] by (simp add: at_def room_def len_def)
  have "PackFixedBytes w p
        = Some ((Expand (len w) p)\<lparr>Bytes := pre @ w @ drop (length w) (rest @ ext),
                                  Offset := len (pre @ w)\<rparr>)"
    using copy_at_at [OF e(1) l] at_not_Errored [OF e(1)] a
    by (simp add: PackFixedBytes_def Let_def)
  moreover have "drop (length w) (rest @ ext) = drop (length w) rest"
    using e(3) by (rule drop_grown)
  ultimately show ?thesis
    using e(1,2) by (simp add: at_def)
qed

lemma put_step:
  assumes "at p pre rest" and "room p pre (length w)"
  shows "\<exists>p1 bs. p1 = Expand (len w) p \<and> \<not> Errored p1 \<and> put p1 w = Some bs
           \<and> at (p1\<lparr>Bytes := bs, Offset := Offset p1 + len w\<rparr>) (pre @ w) (drop (length w) rest)
           \<and> MaxSize p1 = MaxSize p"
proof -
  obtain ext where e: "at (Expand (len w) p) pre (rest @ ext)"
    "MaxSize (Expand (len w) p) = MaxSize p"
    "length (rest @ ext) = max (length rest) (length w)"
    using Expand_at [OF assms(1), of "len w"] assms(2) by (auto simp: room_def len_def)
  have l: "length w \<le> length (rest @ ext)"
    using e(3) by simp
  have "drop (length w) (rest @ ext) = drop (length w) rest"
    using e(3) by (rule drop_grown)
  then show ?thesis
    using put_at [OF e(1) l] at_not_Errored [OF e(1)] e(1,2)
    by (simp add: at_def len_def)
qed

lemma PackShort_at:
  assumes "at p pre rest" and "room p pre 2"
  shows "\<exists>p'. PackShort v p = Some p' \<and> at p' (pre @ bytes16 v) (drop 2 rest)
           \<and> MaxSize p' = MaxSize p"
proof -
  have l: "len (bytes16 v) = ShortLen"
    by (simp add: len_def ShortLen_def)
  obtain bs where b: "\<not> Errored (Expand ShortLen p)" "put (Expand ShortLen p) (bytes16 v) = Some bs"
    "at ((Expand ShortLen p)\<lparr>Bytes := bs, Offset := Offset (Expand ShortLen p) + ShortLen\<rparr>)
        (pre @ bytes16 v) (drop 2 rest)"
    using put_step [OF assms(1), of "bytes16 v"] assms(2) by (auto simp: l)
  then have "PackShort v p
      = Some ((Expand ShortLen p)\<lparr>Bytes := bs, Offset := Offset (Expand ShortLen p) + ShortLen\<rparr>)"
    by (simp add: PackShort_def Let_def)
  with b(3) show ?thesis by simp
qed

lemma PackInt_at:
  assumes "at p pre rest" and "room p pre 4"
  shows "\<exists>p'. PackInt v p = Some p' \<and> at p' (pre @ bytes32 v) (drop 4 rest)
           \<and> MaxSize p' = MaxSize p"
proof -
  have l: "len (bytes32 v) = IntLen"
    by (simp add: len_def IntLen_def)
  obtain bs where b: "\<not> Errored (Expand IntLen p)" "put (Expand IntLen p) (bytes32 v) = Some bs"
    "at ((Expand IntLen p)\<lparr>Bytes := bs, Offset := Offset (Expand IntLen p) + IntLen\<rparr>)
        (pre @ bytes32 v) (drop 4 rest)"
    using put_step [OF assms(1), of "bytes32 v"] assms(2) by (auto simp: l)
  then have "PackInt v p
      = Some ((Expand IntLen p)\<lparr>Bytes := bs, Offset := Offset (Expand IntLen p) + IntLen\<rparr>)"
    by (simp add: PackInt_def Let_def)
  with b(3) show ?thesis by simp
qed

lemma PackLong_at:
  assumes "at p pre rest" and "room p pre 8"
  shows "\<exists>p'. PackLong v p = Some p' \<and> at p' (pre @ bytes64 v) (drop 8 rest)
           \<and> MaxSize p' = MaxSize p"
proof -
  have l: "len (bytes64 v) = LongLen"
    by (simp add: len_def LongLen_def)
  obtain bs where b: "\<not> Errored (Expand LongLen p)" "put (Expand LongLen p) (bytes64 v) = Some bs"
    "at ((Expand LongLen p)\<lparr>Bytes := bs, Offset := Offset (Expand LongLen p) + LongLen\<rparr>)
        (pre @ bytes64 v) (drop 8 rest)"
    using put_step [OF assms(1), of "bytes64 v"] assms(2) by (auto simp: l)
  then have "PackLong v p
      = Some ((Expand LongLen p)\<lparr>Bytes := bs, Offset := Offset (Expand LongLen p) + LongLen\<rparr>)"
    by (simp add: PackLong_def Let_def)
  with b(3) show ?thesis by simp
qed

lemma PackByte_at:
  assumes "at p pre rest" and "room p pre 1"
  shows "\<exists>p'. PackByte v p = Some p' \<and> at p' (pre @ [v]) (drop 1 rest)
           \<and> MaxSize p' = MaxSize p"
proof -
  obtain ext where e: "at (Expand ByteLen p) pre (rest @ ext)"
    "MaxSize (Expand ByteLen p) = MaxSize p"
    "length (rest @ ext) = max (length rest) 1"
    using Expand_at [OF assms(1), of ByteLen] assms(2) by (auto simp: room_def ByteLen_def)
  obtain x xs where x: "rest @ ext = x # xs"
    using e(3) by (cases "rest @ ext") auto
  have d: "drop 1 (rest @ ext) = drop 1 rest"
    using e(3) by (rule drop_grown)
  have b: "Bytes (Expand ByteLen p) = pre @ x # xs" "Offset (Expand ByteLen p) = len pre"
    "Errs (Expand ByteLen p) = []"
    using e(1) x by (simp_all add: at_def)
  have "PackByte v p
        = Some ((Expand ByteLen p)\<lparr>Bytes := pre @ v # xs, Offset := len pre + 1\<rparr>)"
    using b by (simp add: PackByte_def Let_def Errored_def index_def len_def)
  moreover have "xs = drop 1 rest"
    using d x by simp
  ultimately show ?thesis
    using e(2) b by (simp add: at_def len_def)
qed

subsection \<open>Reading at the offset\<close>

lemma at_advance: "at q pre (w @ rest) \<Longrightarrow> at (q\<lparr>Offset := len pre + len w\<rparr>) (pre @ w) rest"
  by (simp add: at_def len_def)

lemma UnpackByte_at:
  assumes "at q pre (v # rest)"
  shows "\<exists>q'. UnpackByte q = Some (v, q') \<and> at q' (pre @ [v]) rest"
proof -
  have c: "CheckSpace ByteLen q = q"
    using assms at_CheckSpace [of q pre "v # rest" ByteLen] by (simp add: ByteLen_def len_def)
  have "UnpackByte q = Some (v, q\<lparr>Offset := len pre + len [v]\<rparr>)"
    using assms c at_not_Errored [OF assms]
    by (simp add: UnpackByte_def index_def at_def len_def)
  then show ?thesis
    using at_advance [of q pre "[v]" rest] assms by auto
qed

lemma UnpackShort_at:
  assumes "at q pre (bytes16 v @ rest)"
  shows "\<exists>q'. UnpackShort q = Some (v, q') \<and> at q' (pre @ bytes16 v) rest"
proof -
  have c: "CheckSpace ShortLen q = q"
    using assms at_CheckSpace [of q pre "bytes16 v @ rest" ShortLen]
    by (simp add: ShortLen_def len_def)
  have "UnpackShort q = Some (v, q\<lparr>Offset := len pre + len (bytes16 v)\<rparr>)"
    using assms c at_not_Errored [OF assms]
    by (simp add: UnpackShort_def slice_from_def at_def len_def Uint16_bytes16 ShortLen_def)
  then show ?thesis
    using at_advance [OF assms] by auto
qed

lemma UnpackInt_at:
  assumes "at q pre (bytes32 v @ rest)"
  shows "\<exists>q'. UnpackInt q = Some (v, q') \<and> at q' (pre @ bytes32 v) rest"
proof -
  have c: "CheckSpace IntLen q = q"
    using assms at_CheckSpace [of q pre "bytes32 v @ rest" IntLen]
    by (simp add: IntLen_def len_def)
  have "UnpackInt q = Some (v, q\<lparr>Offset := len pre + len (bytes32 v)\<rparr>)"
    using assms c at_not_Errored [OF assms]
    by (simp add: UnpackInt_def slice_from_def at_def len_def Uint32_bytes32 IntLen_def)
  then show ?thesis
    using at_advance [OF assms] by auto
qed

lemma UnpackLong_at:
  assumes "at q pre (bytes64 v @ rest)"
  shows "\<exists>q'. UnpackLong q = Some (v, q') \<and> at q' (pre @ bytes64 v) rest"
proof -
  have c: "CheckSpace LongLen q = q"
    using assms at_CheckSpace [of q pre "bytes64 v @ rest" LongLen]
    by (simp add: LongLen_def len_def)
  have "UnpackLong q = Some (v, q\<lparr>Offset := len pre + len (bytes64 v)\<rparr>)"
    using assms c at_not_Errored [OF assms]
    by (simp add: UnpackLong_def slice_from_def at_def len_def Uint64_bytes64 LongLen_def)
  then show ?thesis
    using at_advance [OF assms] by auto
qed

lemma UnpackFixedBytes_at:
  assumes "at q pre (w @ rest)"
  shows "\<exists>q'. UnpackFixedBytes (len w) q = Some (w, q') \<and> at q' (pre @ w) rest"
proof -
  have c: "CheckSpace (len w) q = q"
    using assms at_CheckSpace [of q pre "w @ rest" "len w"] by (simp add: len_def)
  have "UnpackFixedBytes (len w) q = Some (w, q\<lparr>Offset := len pre + len w\<rparr>)"
    using assms c at_not_Errored [OF assms]
    by (simp add: UnpackFixedBytes_def slice_def at_def len_def)
  then show ?thesis
    using at_advance [OF assms] by auto
qed

lemma UnpackBool_at:
  assumes "at q pre ((if t then 1 else 0) # rest)"
  shows "\<exists>q'. UnpackBool q = Some (t, q') \<and> at q' (pre @ [if t then 1 else 0]) rest"
proof -
  obtain q' where "UnpackByte q = Some (if t then 1 else 0, q')"
    "at q' (pre @ [if t then 1 else 0]) rest"
    using UnpackByte_at [OF assms] by blast
  then show ?thesis
    by (cases t) (simp_all add: UnpackBool_def)
qed

lemma UnpackBytes_at:
  assumes "at q pre ((bytes32 (of_nat (length bs)) @ bs) @ rest)" and "length bs < 2 ^ 32"
  shows "\<exists>q'. UnpackBytes q = Some (bs, q') \<and> at q' (pre @ bytes32 (of_nat (length bs)) @ bs) rest"
proof -
  obtain q1 where 1: "UnpackInt q = Some (of_nat (length bs), q1)"
    "at q1 (pre @ bytes32 (of_nat (length bs))) (bs @ rest)"
    using UnpackInt_at [of q pre "of_nat (length bs)" "bs @ rest"] assms(1) by auto
  obtain q2 where 2: "UnpackFixedBytes (len bs) q1 = Some (bs, q2)"
    "at q2 ((pre @ bytes32 (of_nat (length bs))) @ bs) rest"
    using UnpackFixedBytes_at [OF 1(2)] by blast
  show ?thesis
    using 1 2 assms(2) by (simp add: UnpackBytes_def uint_of_nat_32 len_def)
qed

lemma UnpackStr_at:
  assumes "at q pre ((bytes16 (of_nat (length s)) @ bytes_of_string s) @ rest)"
    and "length s \<le> 65535"
  shows "\<exists>q'. UnpackStr q = Some (s, q')
           \<and> at q' (pre @ bytes16 (of_nat (length s)) @ bytes_of_string s) rest"
proof -
  obtain q1 where 1: "UnpackShort q = Some (of_nat (length s), q1)"
    "at q1 (pre @ bytes16 (of_nat (length s))) (bytes_of_string s @ rest)"
    using UnpackShort_at [of q pre "of_nat (length s)" "bytes_of_string s @ rest"] assms(1)
    by auto
  obtain q2 where 2: "UnpackFixedBytes (len (bytes_of_string s)) q1 = Some (bytes_of_string s, q2)"
    "at q2 ((pre @ bytes16 (of_nat (length s))) @ bytes_of_string s) rest"
    using UnpackFixedBytes_at [OF 1(2)] by blast
  show ?thesis
    using 1 2 assms(2)
    by (simp add: UnpackStr_def uint_of_nat_16 len_def string_of_bytes_of_string)
qed

lemma UnpackIP_at:
  assumes "at q pre (wire_IP ip @ rest)" and "length (IP ip) = 16"
  shows "\<exists>q'. UnpackIP q = Some (ip, q') \<and> at q' (pre @ wire_IP ip) rest"
proof -
  have a: "at q pre (IP ip @ bytes16 (Port ip) @ rest)"
    using assms(1) by (simp add: wire_IP_def)
  obtain q1 where 1: "UnpackFixedBytes (len (IP ip)) q = Some (IP ip, q1)"
    "at q1 (pre @ IP ip) (bytes16 (Port ip) @ rest)"
    using UnpackFixedBytes_at [OF a] by blast
  obtain q2 where 2: "UnpackShort q1 = Some (Port ip, q2)"
    "at q2 ((pre @ IP ip) @ bytes16 (Port ip)) rest"
    using UnpackShort_at [OF 1(2)] by blast
  show ?thesis
    using 1 2 assms(2) by (simp add: UnpackIP_def len_def wire_IP_def)
qed

lemma UnpackFixedByteSlices_loop_at:
  assumes "list_all (\<lambda>xs. len xs = n) xss" and "at q pre (concat xss @ rest)"
  shows "\<exists>q'. UnpackFixedByteSlices_loop (length xss) n acc q = Some (acc @ xss, q')
           \<and> at q' (pre @ concat xss) rest"
  using assms
proof (induction xss arbitrary: acc q pre)
  case Nil
  then show ?case by simp
next
  case (Cons xs xss)
  have a: "at q pre (xs @ concat xss @ rest)"
    using Cons.prems(2) by simp
  obtain q1 where 1: "UnpackFixedBytes (len xs) q = Some (xs, q1)"
    "at q1 (pre @ xs) (concat xss @ rest)"
    using UnpackFixedBytes_at [OF a] by blast
  obtain q2 where 2: "UnpackFixedByteSlices_loop (length xss) n (acc @ [xs]) q1
      = Some ((acc @ [xs]) @ xss, q2)" "at q2 ((pre @ xs) @ concat xss) rest"
    using Cons.IH [OF _ 1(2), of "acc @ [xs]"] Cons.prems(1) by auto
  show ?case
    using 1 2 Cons.prems(1) at_not_Errored [OF Cons.prems(2)] by simp
qed

lemma UnpackFixedByteSlices_at:
  assumes "at q pre ((bytes32 (of_nat (length xss)) @ concat xss) @ rest)"
    and "length xss < 2 ^ 32" and "list_all (\<lambda>xs. len xs = n) xss"
  shows "\<exists>q'. UnpackFixedByteSlices n q = Some (xss, q')
           \<and> at q' (pre @ bytes32 (of_nat (length xss)) @ concat xss) rest"
proof -
  obtain q1 where 1: "UnpackInt q = Some (of_nat (length xss), q1)"
    "at q1 (pre @ bytes32 (of_nat (length xss))) (concat xss @ rest)"
    using UnpackInt_at [of q pre "of_nat (length xss)" "concat xss @ rest"] assms(1) by auto
  obtain q2 where 2: "UnpackFixedByteSlices_loop (length xss) n [] q1 = Some ([] @ xss, q2)"
    "at q2 ((pre @ bytes32 (of_nat (length xss))) @ concat xss) rest"
    using UnpackFixedByteSlices_loop_at [OF assms(3) 1(2)] by blast
  show ?thesis
    using 1 2 assms(2) by (simp add: UnpackFixedByteSlices_def unat_of_nat_32)
qed

lemma UnpackIPs_loop_at:
  assumes "list_all (\<lambda>ip. length (IP ip) = 16) ips" and "at q pre (concat (map wire_IP ips) @ rest)"
  shows "\<exists>q'. UnpackIPs_loop (length ips) acc q = Some (acc @ ips, q')
           \<and> at q' (pre @ concat (map wire_IP ips)) rest"
  using assms
proof (induction ips arbitrary: acc q pre)
  case Nil
  then show ?case by simp
next
  case (Cons ip ips)
  have a: "at q pre (wire_IP ip @ concat (map wire_IP ips) @ rest)"
    using Cons.prems(2) by simp
  obtain q1 where 1: "UnpackIP q = Some (ip, q1)"
    "at q1 (pre @ wire_IP ip) (concat (map wire_IP ips) @ rest)"
    using UnpackIP_at [OF a] Cons.prems(1) by auto
  obtain q2 where 2: "UnpackIPs_loop (length ips) (acc @ [ip]) q1 = Some ((acc @ [ip]) @ ips, q2)"
    "at q2 ((pre @ wire_IP ip) @ concat (map wire_IP ips)) rest"
    using Cons.IH [OF _ 1(2), of "acc @ [ip]"] Cons.prems(1) by auto
  show ?case
    using 1 2 at_not_Errored [OF Cons.prems(2)] by simp
qed

lemma UnpackIPs_at:
  assumes "at q pre ((bytes32 (of_nat (length ips)) @ concat (map wire_IP ips)) @ rest)"
    and "length ips < 2 ^ 32" and "list_all (\<lambda>ip. length (IP ip) = 16) ips"
  shows "\<exists>q'. UnpackIPs q = Some (ips, q')
           \<and> at q' (pre @ bytes32 (of_nat (length ips)) @ concat (map wire_IP ips)) rest"
proof -
  obtain q1 where 1: "UnpackInt q = Some (of_nat (length ips), q1)"
    "at q1 (pre @ bytes32 (of_nat (length ips))) (concat (map wire_IP ips) @ rest)"
    using UnpackInt_at [of q pre "of_nat (length ips)" "concat (map wire_IP ips) @ rest"] assms(1)
    by auto
  obtain q2 where 2: "UnpackIPs_loop (length ips) [] q1 = Some ([] @ ips, q2)"
    "at q2 ((pre @ bytes32 (of_nat (length ips))) @ concat (map wire_IP ips)) rest"
    using UnpackIPs_loop_at [OF assms(3) 1(2)] by blast
  show ?thesis
    using 1 2 assms(2) by (simp add: UnpackIPs_def unat_of_nat_32)
qed

subsection \<open>Composite writes\<close>

lemma PackBool_at:
  assumes "at p pre rest" and "room p pre 1"
  shows "\<exists>p'. PackBool t p = Some p' \<and> at p' (pre @ [if t then 1 else 0]) (drop 1 rest)
           \<and> MaxSize p' = MaxSize p"
  using PackByte_at [OF assms, of 1] PackByte_at [OF assms, of 0]
  by (cases t) (simp_all add: PackBool_def)

lemma room_next:
  "room p pre (j + k) \<Longrightarrow> MaxSize p1 = MaxSize p \<Longrightarrow> length w = j \<Longrightarrow> room p1 (pre @ w) k"
  by (simp add: room_def len_def)

lemma PackBytes_at:
  assumes "at p pre rest" and "room p pre (4 + length bs)"
  shows "\<exists>p'. PackBytes bs p = Some p'
           \<and> at p' (pre @ bytes32 (of_nat (length bs)) @ bs) (drop (4 + length bs) rest)
           \<and> MaxSize p' = MaxSize p"
proof -
  obtain p1 where 1: "PackInt (of_nat (length bs)) p = Some p1"
    "at p1 (pre @ bytes32 (of_nat (length bs))) (drop 4 rest)" "MaxSize p1 = MaxSize p"
    using PackInt_at [OF assms(1) room_less [OF assms(2)]] by blast
  have r: "room p1 (pre @ bytes32 (of_nat (length bs))) (length bs)"
    using room_next [OF assms(2) 1(3)] by simp
  obtain p2 where 2: "PackFixedBytes bs p1 = Some p2"
    "at p2 ((pre @ bytes32 (of_nat (length bs))) @ bs) (drop (length bs) (drop 4 rest))"
    "MaxSize p2 = MaxSize p1"
    using PackFixedBytes_at [OF 1(2) r] by blast
  show ?thesis
    using 1 2 by (simp add: PackBytes_def len_def add.commute)
qed

lemma PackStr_at:
  assumes "at p pre rest" and "room p pre (2 + length s)" and "length s \<le> 65535"
  shows "\<exists>p'. PackStr s p = Some p'
           \<and> at p' (pre @ bytes16 (of_nat (length s)) @ bytes_of_string s)
                (drop (2 + length s) rest)
           \<and> MaxSize p' = MaxSize p"
proof -
  obtain p1 where 1: "PackShort (of_nat (length s)) p = Some p1"
    "at p1 (pre @ bytes16 (of_nat (length s))) (drop 2 rest)" "MaxSize p1 = MaxSize p"
    using PackShort_at [OF assms(1) room_less [OF assms(2)]] by blast
  have r: "room p1 (pre @ bytes16 (of_nat (length s))) (length (bytes_of_string s))"
    using room_next [OF assms(2) 1(3)] by simp
  obtain p2 where 2: "PackFixedBytes (bytes_of_string s) p1 = Some p2"
    "at p2 ((pre @ bytes16 (of_nat (length s))) @ bytes_of_string s)
       (drop (length (bytes_of_string s)) (drop 2 rest))"
    "MaxSize p2 = MaxSize p1"
    using PackFixedBytes_at [OF 1(2) r] by blast
  show ?thesis
    using 1 2 assms(3) by (simp add: PackStr_def Let_def len_def MaxStringLen_def add.commute)
qed

lemma length_wire_IP: "length (IP ip) = 16 \<Longrightarrow> length (wire_IP ip) = 18"
  by (simp add: wire_IP_def)

lemma PackIP_at:
  assumes "at p pre rest" and "room p pre 18" and "length (IP ip) = 16"
  shows "\<exists>p'. PackIP ip p = Some p' \<and> at p' (pre @ wire_IP ip) (drop 18 rest)
           \<and> MaxSize p' = MaxSize p"
proof -
  have r0: "room p pre (length (IP ip) + 2)"
    using assms(2,3) by simp
  obtain p1 where 1: "PackFixedBytes (IP ip) p = Some p1"
    "at p1 (pre @ IP ip) (drop (length (IP ip)) rest)" "MaxSize p1 = MaxSize p"
    using PackFixedBytes_at [OF assms(1) room_less [OF r0]] by blast
  have r: "room p1 (pre @ IP ip) 2"
    using room_next [OF r0 1(3)] by simp
  obtain p2 where 2: "PackShort (Port ip) p1 = Some p2"
    "at p2 ((pre @ IP ip) @ bytes16 (Port ip)) (drop 2 (drop (length (IP ip)) rest))"
    "MaxSize p2 = MaxSize p1"
    using PackShort_at [OF 1(2) r] by blast
  show ?thesis
    using 1 2 assms(3) by (simp add: PackIP_def To16_def wire_IP_def)
qed

lemma PackFixedByteSlices_loop_at:
  assumes "at p pre rest" and "room p pre (length (concat xss))"
  shows "\<exists>p'. PackFixedByteSlices_loop xss p = Some p'
           \<and> at p' (pre @ concat xss) (drop (length (concat xss)) rest)
           \<and> MaxSize p' = MaxSize p"
  using assms
proof (induction xss arbitrary: p pre rest)
  case Nil
  then show ?case by simp
next
  case (Cons xs xss)
  have r0: "room p pre (length xs + length (concat xss))"
    using Cons.prems(2) by simp
  obtain p1 where 1: "PackFixedBytes xs p = Some p1"
    "at p1 (pre @ xs) (drop (length xs) rest)" "MaxSize p1 = MaxSize p"
    using PackFixedBytes_at [OF Cons.prems(1) room_less [OF r0]] by blast
  have r: "room p1 (pre @ xs) (length (concat xss))"
    using room_next [OF r0 1(3)] by simp
  obtain p2 where 2: "PackFixedByteSlices_loop xss p1 = Some p2"
    "at p2 ((pre @ xs) @ concat xss) (drop (length (concat xss)) (drop (length xs) rest))"
    "MaxSize p2 = MaxSize p1"
    using Cons.IH [OF 1(2) r] by blast
  show ?case
    using 1 2 by (simp add: add.commute)
qed

lemma PackFixedByteSlices_at:
  assumes "at p pre rest" and "room p pre (4 + length (concat xss))"
  shows "\<exists>p'. PackFixedByteSlices xss p = Some p'
           \<and> at p' (pre @ bytes32 (of_nat (length xss)) @ concat xss)
                (drop (4 + length (concat xss)) rest)
           \<and> MaxSize p' = MaxSize p"
proof -
  obtain p1 where 1: "PackInt (of_nat (length xss)) p = Some p1"
    "at p1 (pre @ bytes32 (of_nat (length xss))) (drop 4 rest)" "MaxSize p1 = MaxSize p"
    using PackInt_at [OF assms(1) room_less [OF assms(2)]] by blast
  have r: "room p1 (pre @ bytes32 (of_nat (length xss))) (length (concat xss))"
    using room_next [OF assms(2) 1(3)] by simp
  obtain p2 where 2: "PackFixedByteSlices_loop xss p1 = Some p2"
    "at p2 ((pre @ bytes32 (of_nat (length xss))) @ concat xss)
       (drop (length (concat xss)) (drop 4 rest))"
    "MaxSize p2 = MaxSize p1"
    using PackFixedByteSlices_loop_at [OF 1(2) r] by blast
  show ?thesis
    using 1 2 by (simp add: PackFixedByteSlices_def len_def add.commute)
qed

lemma PackIPs_loop_at:
  assumes "at p pre rest" and "room p pre (length (concat (map wire_IP ips)))"
    and "list_all (\<lambda>ip. length (IP ip) = 16) ips"
  shows "\<exists>p'. PackIPs_loop ips p = Some p'
           \<and> at p' (pre @ concat (map wire_IP ips)) (drop (length (concat (map wire_IP ips))) rest)
           \<and> MaxSize p' = MaxSize p"
  using assms
proof (induction ips arbitrary: p pre rest)
  case Nil
  then show ?case by simp
next
  case (Cons ip ips)
  have i: "length (IP ip) = 16" "length (wire_IP ip) = 18"
    using Cons.prems(3) by (simp_all add: length_wire_IP)
  have r0: "room p pre (18 + length (concat (map wire_IP ips)))"
    using Cons.prems(2) i by simp
  obtain p1 where 1: "PackIP ip p = Some p1"
    "at p1 (pre @ wire_IP ip) (drop 18 rest)" "MaxSize p1 = MaxSize p"
    using PackIP_at [OF Cons.prems(1) room_less [OF r0] i(1)] by blast
  have r: "room p1 (pre @ wire_IP ip) (length (concat (map wire_IP ips)))"
    using room_next [OF r0 1(3) i(2)] by simp
  obtain p2 where 2: "PackIPs_loop ips p1 = Some p2"
    "at p2 ((pre @ wire_IP ip) @ concat (map wire_IP ips))
       (drop (length (concat (map wire_IP ips))) (drop 18 rest))"
    "MaxSize p2 = MaxSize p1"
    using Cons.IH [OF 1(2) r] Cons.prems(3) by auto
  show ?case
    using 1 2 i at_not_Errored [OF Cons.prems(1)] by (simp add: add.commute)
qed

lemma PackIPs_at:
  assumes "at p pre rest" and "room p pre (4 + length (concat (map wire_IP ips)))"
    and "list_all (\<lambda>ip. length (IP ip) = 16) ips"
  shows "\<exists>p'. PackIPs ips p = Some p'
           \<and> at p' (pre @ bytes32 (of_nat (length ips)) @ concat (map wire_IP ips))
                (drop (4 + length (concat (map wire_IP ips))) rest)
           \<and> MaxSize p' = MaxSize p"
proof -
  obtain p1 where 1: "PackInt (of_nat (length ips)) p = Some p1"
    "at p1 (pre @ bytes32 (of_nat (length ips))) (drop 4 rest)" "MaxSize p1 = MaxSize p"
    using PackInt_at [OF assms(1) room_less [OF assms(2)]] by blast
  have r: "room p1 (pre @ bytes32 (of_nat (length ips))) (length (concat (map wire_IP ips)))"
    using room_next [OF assms(2) 1(3)] by simp
  obtain p2 where 2: "PackIPs_loop ips p1 = Some p2"
    "at p2 ((pre @ bytes32 (of_nat (length ips))) @ concat (map wire_IP ips))
       (drop (length (concat (map wire_IP ips))) (drop 4 rest))"
    "MaxSize p2 = MaxSize p1"
    using PackIPs_loop_at [OF 1(2) r assms(3)] by blast
  show ?thesis
    using 1 2 by (simp add: PackIPs_def len_def add.commute)
qed

subsection \<open>The round trip\<close>

lemma length_concat_uniform:
  "list_all (\<lambda>xs. length xs = k) xss \<Longrightarrow> length (concat xss) = length xss * k"
  by (induction xss) simp_all

lemma length_concat_wire_IP:
  "list_all (\<lambda>ip. length (IP ip) = 16) ips \<Longrightarrow> length (concat (map wire_IP ips)) = length ips * 18"
  by (induction ips) (simp_all add: length_wire_IP)

lemma length_wire: "in_domain v \<Longrightarrow> length (wire v) = width v"
  by (cases v)
     (simp_all add: length_concat_uniform length_concat_wire_IP length_wire_IP)

lemma pack_at:
  assumes "in_domain v" and "at p pre rest" and "room p pre (length (wire v))"
  shows "\<exists>p'. pack v p = Some p' \<and> at p' (pre @ wire v) (drop (length (wire v)) rest)
           \<and> MaxSize p' = MaxSize p"
proof (cases v)
  case (VByte b)
  with assms PackByte_at [OF assms(2), of b] show ?thesis by simp
next
  case (VBool t)
  with assms PackBool_at [OF assms(2), of t] show ?thesis by simp
next
  case (VShort s)
  with assms PackShort_at [OF assms(2), of s] show ?thesis by simp
next
  case (VInt i)
  with assms PackInt_at [OF assms(2), of i] show ?thesis by simp
next
  case (VLong l)
  with assms PackLong_at [OF assms(2), of l] show ?thesis by simp
next
  case (VFixedBytes bs)
  with assms PackFixedBytes_at [OF assms(2), of bs] show ?thesis by simp
next
  case (VBytes bs)
  with assms PackBytes_at [OF assms(2), of bs] show ?thesis by simp
next
  case (VFixedByteSlices xss)
  with assms PackFixedByteSlices_at [OF assms(2), of xss] show ?thesis by simp
next
  case (VStr s)
  with assms PackStr_at [OF assms(2), of s] show ?thesis by simp
next
  case (VIP ip)
  with assms PackIP_at [OF assms(2), of ip] show ?thesis by (simp add: length_wire_IP)
next
  case (VIPs ips)
  with assms PackIPs_at [OF assms(2), of ips] show ?thesis by simp
qed

lemma uniform_len:
  "list_all (\<lambda>xs. length xs = length (hd xss)) xss
     \<Longrightarrow> list_all (\<lambda>xs. len xs = (case xss of [] \<Rightarrow> 0 | xs # _ \<Rightarrow> len xs)) xss"
  by (cases xss) (simp_all add: len_def list_all_iff)

lemma unpack_at:
  assumes "in_domain v" and "at q pre (wire v @ rest)"
  shows "\<exists>q'. unpack (kind_of v) q = Some (v, q') \<and> at q' (pre @ wire v) rest"
proof (cases v)
  case (VByte b)
  with assms UnpackByte_at [of q pre b rest] show ?thesis by (auto simp: tagged_def)
next
  case (VBool t)
  with assms UnpackBool_at [of q pre t rest] show ?thesis by (auto simp: tagged_def)
next
  case (VShort s)
  with assms UnpackShort_at [of q pre s rest] show ?thesis by (auto simp: tagged_def)
next
  case (VInt i)
  with assms UnpackInt_at [of q pre i rest] show ?thesis by (auto simp: tagged_def)
next
  case (VLong l)
  with assms UnpackLong_at [of q pre l rest] show ?thesis by (auto simp: tagged_def)
next
  case (VFixedBytes bs)
  with assms UnpackFixedBytes_at [of q pre bs rest] show ?thesis by (auto simp: tagged_def)
next
  case (VBytes bs)
  with assms UnpackBytes_at [of q pre bs rest] show ?thesis by (auto simp: tagged_def)
next
  case (VFixedByteSlices xss)
  with assms UnpackFixedByteSlices_at [of q pre xss rest, OF _ _ uniform_len [of xss]]
  show ?thesis by (auto simp: tagged_def)
next
  case (VStr s)
  with assms UnpackStr_at [of q pre s rest] show ?thesis by (auto simp: tagged_def)
next
  case (VIP ip)
  with assms UnpackIP_at [of q pre ip rest] show ?thesis by (auto simp: tagged_def)
next
  case (VIPs ips)
  with assms UnpackIPs_at [of q pre ips rest] show ?thesis by (auto simp: tagged_def)
qed

lemma pack_all_at:
  assumes "list_all in_domain vs" and "at p pre rest"
    and "room p pre (length (concat (map wire vs)))"
  shows "\<exists>p'. pack_all vs p = Some p'
           \<and> at p' (pre @ concat (map wire vs)) (drop (length (concat (map wire vs))) rest)
           \<and> MaxSize p' = MaxSize p"
  using assms
proof (induction vs arbitrary: p pre rest)
  case Nil
  then show ?case by simp
next
  case (Cons v vs)
  have d: "in_domain v" "list_all in_domain vs"
    using Cons.prems(1) by simp_all
  have r0: "room p pre (length (wire v) + length (concat (map wire vs)))"
    using Cons.prems(3) by simp
  obtain p1 where 1: "pack v p = Some p1"
    "at p1 (pre @ wire v) (drop (length (wire v)) rest)" "MaxSize p1 = MaxSize p"
    using pack_at [OF d(1) Cons.prems(2) room_less [OF r0]] by blast
  have r: "room p1 (pre @ wire v) (length (concat (map wire vs)))"
    using room_next [OF r0 1(3)] by simp
  obtain p2 where 2: "pack_all vs p1 = Some p2"
    "at p2 ((pre @ wire v) @ concat (map wire vs))
       (drop (length (concat (map wire vs))) (drop (length (wire v)) rest))"
    "MaxSize p2 = MaxSize p1"
    using Cons.IH [OF d(2) 1(2) r] by blast
  show ?case
    using 1 2 by (simp add: add.commute)
qed

lemma unpack_all_at:
  assumes "list_all in_domain vs" and "at q pre (concat (map wire vs) @ rest)"
  shows "\<exists>q'. unpack_all (map kind_of vs) q = Some (vs, q')
           \<and> at q' (pre @ concat (map wire vs)) rest"
  using assms
proof (induction vs arbitrary: q pre)
  case Nil
  then show ?case by simp
next
  case (Cons v vs)
  have d: "in_domain v" "list_all in_domain vs"
    using Cons.prems(1) by simp_all
  have a: "at q pre (wire v @ concat (map wire vs) @ rest)"
    using Cons.prems(2) by simp
  obtain q1 where 1: "unpack (kind_of v) q = Some (v, q1)"
    "at q1 (pre @ wire v) (concat (map wire vs) @ rest)"
    using unpack_at [OF d(1) a] by blast
  obtain q2 where 2: "unpack_all (map kind_of vs) q1 = Some (vs, q2)"
    "at q2 ((pre @ wire v) @ concat (map wire vs)) rest"
    using Cons.IH [OF d(2) 1(2)] by blast
  show ?case
    using 1 2 by simp
qed

lemma length_concat_wire:
  "list_all in_domain vs \<Longrightarrow> length (concat (map wire vs)) = sum_list (map width vs)"
  by (induction vs) (simp_all add: length_wire)

text \<open>
  C1: for every sequence of typed values, each in the domain of its operation, and
  every \<open>maxSize\<close> that the total width of their encodings does not exceed: packing them
  in order into the fresh packer \<open>Packer{MaxSize: maxSize}\<close> succeeds without an error,
  produces exactly the encodings one after the other, and leaves the offset at the total
  width; unpacking in the same order from the bytes produced returns the very same
  values, without an error, and leaves the offset at the total width. A single operation
  is the sequence of one value.
\<close>

theorem round_trip:
  assumes "list_all in_domain vs" and "int (sum_list (map width vs)) \<le> maxSize"
    and "maxSize < 2 ^ 63"
  shows "\<exists>p q. pack_all vs (fresh maxSize) = Some p
           \<and> \<not> Errored p
           \<and> Bytes p = concat (map wire vs)
           \<and> Offset p = int (sum_list (map width vs))
           \<and> unpack_all (map kind_of vs) (reader (Bytes p)) = Some (vs, q)
           \<and> \<not> Errored q
           \<and> Offset q = int (sum_list (map width vs))"
proof -
  let ?w = "concat (map wire vs)"
  have l: "length ?w = sum_list (map width vs)"
    using assms(1) by (rule length_concat_wire)
  have "at (fresh maxSize) [] []"
    by (simp add: at_def fresh_def len_def)
  moreover have "room (fresh maxSize) [] (length ?w)"
    using assms(2,3) l by (simp add: room_def fresh_def len_def)
  ultimately obtain p where p: "pack_all vs (fresh maxSize) = Some p" "at p ([] @ ?w) (drop (length ?w) [])"
    using pack_all_at [OF assms(1)] by blast
  then have b: "Bytes p = ?w" "Offset p = int (length ?w)" "\<not> Errored p"
    by (simp_all add: at_def len_def Errored_def)
  have "at (reader ?w) [] (?w @ [])"
    by (simp add: at_def reader_def len_def)
  then obtain q where q: "unpack_all (map kind_of vs) (reader ?w) = Some (vs, q)" "at q ([] @ ?w) []"
    using unpack_all_at [OF assms(1)] by blast
  then have "Offset q = int (length ?w)" "\<not> Errored q"
    by (simp_all add: at_def len_def Errored_def)
  with p(1) b q(1) l show ?thesis
    by simp
qed

theorem round_trip_witness:
  "list_all in_domain
     [VByte 7, VBool True, VShort 0x1234, VInt 0xDEADBEEF, VLong 1, VFixedBytes [1, 2],
      VBytes [], VFixedByteSlices [[1, 2], [3, 4]], VStr ''ok'',
      VIP \<lparr>IP = replicate 16 1, Port = 80\<rparr>, VIPs [\<lparr>IP = replicate 16 2, Port = 443\<rparr>]]
   \<and> (\<exists>p q. pack_all
         [VByte 7, VBool True, VShort 0x1234, VInt 0xDEADBEEF, VLong 1, VFixedBytes [1, 2],
          VBytes [], VFixedByteSlices [[1, 2], [3, 4]], VStr ''ok'',
          VIP \<lparr>IP = replicate 16 1, Port = 80\<rparr>, VIPs [\<lparr>IP = replicate 16 2, Port = 443\<rparr>]]
         (fresh 100) = Some p
       \<and> \<not> Errored p
       \<and> Offset p = 74
       \<and> unpack_all
            [KByte, KBool, KShort, KInt, KLong, KFixedBytes 2, KBytes, KFixedByteSlices 2, KStr,
             KIP, KIPs]
            (reader (Bytes p))
          = Some ([VByte 7, VBool True, VShort 0x1234, VInt 0xDEADBEEF, VLong 1,
                   VFixedBytes [1, 2], VBytes [], VFixedByteSlices [[1, 2], [3, 4]], VStr ''ok'',
                   VIP \<lparr>IP = replicate 16 1, Port = 80\<rparr>,
                   VIPs [\<lparr>IP = replicate 16 2, Port = 443\<rparr>]], q)
       \<and> \<not> Errored q
       \<and> Offset q = 74)"
proof -
  let ?vs = "[VByte 7, VBool True, VShort 0x1234, VInt 0xDEADBEEF, VLong 1, VFixedBytes [1, 2],
      VBytes [], VFixedByteSlices [[1, 2], [3, 4]], VStr ''ok'',
      VIP \<lparr>IP = replicate 16 1, Port = 80\<rparr>, VIPs [\<lparr>IP = replicate 16 2, Port = 443\<rparr>]]"
  have d: "list_all in_domain ?vs"
    by simp
  have s: "int (sum_list (map width ?vs)) \<le> 100" "(100::int) < 2 ^ 63"
    by simp_all
  have k: "map kind_of ?vs
      = [KByte, KBool, KShort, KInt, KLong, KFixedBytes 2, KBytes, KFixedByteSlices 2, KStr,
         KIP, KIPs]"
    by (simp add: len_def)
  have n: "int (sum_list (map width ?vs)) = 74"
    by simp
  show ?thesis
    using d round_trip [OF d s] unfolding k n by blast
qed

subsection \<open>The length limit of strings\<close>

lemma errored_PackShort: "Errored p \<Longrightarrow> PackShort v p = Some (Expand ShortLen p)"
  by (simp add: PackShort_def Let_def Expand_Errored)

lemma errored_PackFixedBytes: "Errored p \<Longrightarrow> PackFixedBytes w p = Some (Expand (len w) p)"
  by (simp add: PackFixedBytes_def Let_def Expand_Errored)

lemma errored_Expand_Errs: "Errored p \<Longrightarrow> \<exists>es. Errs (Expand n p) = Errs p @ es"
  by (auto simp: Expand_def Let_def CheckSpace_def Errored_def Add_def)

lemma PackStr_too_long:
  assumes "\<not> Errored p" and "65536 \<le> length s"
  shows "\<exists>p'. PackStr s p = Some p' \<and> hd (Errs p') = errInvalidInput
           \<and> Bytes p' = Bytes p \<and> Offset p' = Offset p"
proof -
  define p0 where "p0 = Add errInvalidInput p"
  define p1 where "p1 = Expand ShortLen p0"
  define p2 where "p2 = Expand (len (bytes_of_string s)) p1"
  have e0: "Errored p0" "Errs p0 = [errInvalidInput]"
    using assms(1) by (simp_all add: p0_def Errored_def)
  have e1: "Errored p1"
    using e0(1) by (simp add: p1_def Expand_Errored)
  obtain es where 1: "Errs p1 = Errs p0 @ es"
    using errored_Expand_Errs [OF e0(1)] p1_def by blast
  obtain es' where 2: "Errs p2 = Errs p1 @ es'"
    using errored_Expand_Errs [OF e1] p2_def by blast
  have "PackStr s p = Some p2"
    using assms(2) e0(1) e1
    by (simp add: PackStr_def Let_def len_def MaxStringLen_def errored_PackShort
        errored_PackFixedBytes p0_def p1_def p2_def)
  moreover have "hd (Errs p2) = errInvalidInput"
    using 1 2 e0(2) by simp
  moreover have "Bytes p2 = Bytes p" "Offset p2 = Offset p"
    using e0(1) e1 by (simp_all add: p2_def p1_def Expand_Errored) (simp_all add: p0_def)
  ultimately show ?thesis by simp
qed

lemma PackStr_fits:
  assumes "Errs p = []" and "0 \<le> Offset p" and "Offset p \<le> len (Bytes p)"
    and "Offset p + 2 + len s \<le> MaxSize p" and "MaxSize p < 2 ^ 63" and "length s \<le> 65535"
  shows "\<exists>p'. PackStr s p = Some p' \<and> \<not> Errored p'
           \<and> Offset p' = Offset p + 2 + len s
           \<and> take (nat (Offset p)) (Bytes p') = take (nat (Offset p)) (Bytes p)
           \<and> take (2 + length s) (drop (nat (Offset p)) (Bytes p'))
               = bytes16 (of_nat (length s)) @ bytes_of_string s"
proof -
  let ?pre = "take (nat (Offset p)) (Bytes p)"
  let ?rest = "drop (nat (Offset p)) (Bytes p)"
  have lp: "length ?pre = nat (Offset p)"
    using assms(2,3) by (simp add: len_def)
  have a: "at p ?pre ?rest"
    using assms(1,2,3) by (simp add: at_def len_def)
  have r: "room p ?pre (2 + length s)"
    using assms(2,3,4,5) by (simp add: room_def len_def)
  obtain p' where p': "PackStr s p = Some p'"
    "at p' (?pre @ bytes16 (of_nat (length s)) @ bytes_of_string s) (drop (2 + length s) ?rest)"
    using PackStr_at [OF a r assms(6)] by blast
  have b: "Bytes p' = ?pre @ (bytes16 (of_nat (length s)) @ bytes_of_string s)
      @ drop (2 + length s) ?rest"
    using p'(2) by (simp add: at_def)
  have "take (nat (Offset p)) (Bytes p') = ?pre"
    using lp unfolding b by simp
  moreover have "take (2 + length s) (drop (nat (Offset p)) (Bytes p'))
      = bytes16 (of_nat (length s)) @ bytes_of_string s"
    using lp unfolding b by simp
  moreover have "Offset p' = Offset p + 2 + len s" "\<not> Errored p'"
    using p'(2) assms(2,3) by (simp_all add: at_def len_def Errored_def)
  ultimately show ?thesis
    using p'(1) by simp
qed

text \<open>
  An error-free packer with \<open>MaxSize = 0\<close> has no room for the two bytes of the length
  prefix: \<open>PackStr\<close> with a string of 65535 bytes records \<open>errBadLength\<close>.
\<close>

theorem PackStr_no_room_counterexample:
  "length (replicate 65535 (CHR ''a'')) = 65535
    \<and> \<not> Errored (fresh 0)
    \<and> PackStr (replicate 65535 (CHR ''a'')) (fresh 0) = Some (Add errBadLength (fresh 0))
    \<and> Errored (Add errBadLength (fresh 0))"
  by (simp add: PackStr_def PackShort_def PackFixedBytes_def Expand_def CheckSpace_def
      fresh_def Errored_def Add_def Let_def len_def MaxStringLen_def ShortLen_def add64_def)

text \<open>
  C8, as the code has it: on an error-free packer with \<open>0 \<le> Offset \<le> len(Bytes)\<close>
  that has room for 65537 more bytes below \<open>MaxSize\<close>, \<open>PackStr\<close> with a string of
  exactly 65535 bytes succeeds: no error is recorded, the two bytes \<open>FF FF\<close> of the
  length and then the content stand at the old offset, what was before the offset is
  unchanged, and the offset has advanced by 65537. On every error-free packer,
  \<open>PackStr\<close> with a string of 65536 bytes or more records \<open>errInvalidInput\<close> first and
  writes nothing: \<open>Bytes\<close> and \<open>Offset\<close> are unchanged.
\<close>

theorem PackStr_boundary:
  "(Errs p = [] \<and> 0 \<le> Offset p \<and> Offset p \<le> len (Bytes p)
      \<and> Offset p + 65537 \<le> MaxSize p \<and> MaxSize p < 2 ^ 63 \<and> length s = 65535
    \<longrightarrow> (\<exists>p'. PackStr s p = Some p' \<and> \<not> Errored p'
           \<and> Offset p' = Offset p + 65537
           \<and> take (nat (Offset p)) (Bytes p') = take (nat (Offset p)) (Bytes p)
           \<and> take 65537 (drop (nat (Offset p)) (Bytes p')) = bytes16 65535 @ bytes_of_string s))
   \<and> (\<not> Errored p \<and> 65536 \<le> length t
    \<longrightarrow> (\<exists>p'. PackStr t p = Some p' \<and> hd (Errs p') = errInvalidInput
           \<and> Bytes p' = Bytes p \<and> Offset p' = Offset p))"
proof (intro conjI impI)
  assume a: "Errs p = [] \<and> 0 \<le> Offset p \<and> Offset p \<le> len (Bytes p)
      \<and> Offset p + 65537 \<le> MaxSize p \<and> MaxSize p < 2 ^ 63 \<and> length s = 65535"
  then show "\<exists>p'. PackStr s p = Some p' \<and> \<not> Errored p'
           \<and> Offset p' = Offset p + 65537
           \<and> take (nat (Offset p)) (Bytes p') = take (nat (Offset p)) (Bytes p)
           \<and> take 65537 (drop (nat (Offset p)) (Bytes p')) = bytes16 65535 @ bytes_of_string s"
    using PackStr_fits [of p s] by (simp add: len_def add.commute)
next
  assume "\<not> Errored p \<and> 65536 \<le> length t"
  then show "\<exists>p'. PackStr t p = Some p' \<and> hd (Errs p') = errInvalidInput
           \<and> Bytes p' = Bytes p \<and> Offset p' = Offset p"
    using PackStr_too_long [of p t] by simp
qed

theorem PackStr_boundary_witness:
  "Errs (fresh 65537) = [] \<and> 0 \<le> Offset (fresh 65537)
    \<and> Offset (fresh 65537) \<le> len (Bytes (fresh 65537))
    \<and> Offset (fresh 65537) + 65537 \<le> MaxSize (fresh 65537) \<and> MaxSize (fresh 65537) < 2 ^ 63
    \<and> length (replicate 65535 (CHR ''a'')) = 65535
    \<and> (\<exists>p'. PackStr (replicate 65535 (CHR ''a'')) (fresh 65537) = Some p' \<and> \<not> Errored p'
          \<and> Offset p' = Offset (fresh 65537) + 65537)
    \<and> \<not> Errored (fresh 65537) \<and> 65536 \<le> length (replicate 65536 (CHR ''a''))
    \<and> (\<exists>p'. PackStr (replicate 65536 (CHR ''a'')) (fresh 65537) = Some p'
          \<and> hd (Errs p') = errInvalidInput
          \<and> Bytes p' = Bytes (fresh 65537) \<and> Offset p' = Offset (fresh 65537))"
proof -
  have h1: "Errs (fresh 65537) = [] \<and> 0 \<le> Offset (fresh 65537)
    \<and> Offset (fresh 65537) \<le> len (Bytes (fresh 65537))
    \<and> Offset (fresh 65537) + 65537 \<le> MaxSize (fresh 65537) \<and> MaxSize (fresh 65537) < 2 ^ 63
    \<and> length (replicate 65535 (CHR ''a'')) = 65535"
    by (simp add: fresh_def len_def)
  have h2: "\<not> Errored (fresh 65537) \<and> 65536 \<le> length (replicate 65536 (CHR ''a''))"
    by (simp add: fresh_def Errored_def)
  show ?thesis
    using h1 h2
      PackStr_boundary [of "fresh 65537" "replicate 65535 (CHR ''a'')" "replicate 65536 (CHR ''a'')"]
    by blast
qed

section \<open>Properties of the VM\<close>

subsection \<open>Parse errors\<close>

text \<open>
  C10: when the codec's \<open>Unmarshal\<close> fails on the bytes handed to \<open>ParseBlock\<close>,
  \<open>ParseBlock\<close> still returns a block that is not nil, initialized with those very
  bytes (and the identifier computed from them), together with the codec's error.
\<close>

theorem ParseBlock_error_keeps_block:
  "snd (Unmarshal (codec vm) bytes zero_Block) = Some err \<Longrightarrow>
     \<exists>block. ParseBlock hash bytes vm = (Some block, Some err)
       \<and> blkBytes block = bytes \<and> blkID block = hash bytes"
  by (cases "Unmarshal (codec vm) bytes zero_Block")
     (simp add: ParseBlock_def Block_Initialize_def)

theorem ParseBlock_error_keeps_block_witness:
  "snd (Unmarshal (codec new_VM) [1, 2, 3] zero_Block) = Some errBadLength
   \<and> (\<exists>block. ParseBlock example_hash [1, 2, 3] new_VM
                = (Some block, Some errBadLength)
       \<and> blkBytes block = [1, 2, 3]
       \<and> blkID block = example_hash [1, 2, 3])"
proof -
  have h: "snd (Unmarshal (codec new_VM) [1, 2, 3] zero_Block) = Some errBadLength"
    by (simp add: new_VM_def codec_NewDefault_def default_Unmarshal_def)
  show ?thesis
    using h ParseBlock_error_keeps_block [OF h, of example_hash]
    by simp
qed

subsection \<open>Building a block\<close>

lemma NewBlock_Inr:
  "Marshal (codec vm) ((core_NewBlock parent)\<lparr>Data := d, Timestamp := Unix t\<rparr>) = Inr bs
     \<Longrightarrow> NewBlock hash parent d t vm
          = Inr \<lparr>blkID = hash bs, blkBytes = bs,
                 status = (case blocks (DB vm) (hash bs) of
                             Some (stored, st) \<Rightarrow> st
                           | None \<Rightarrow> Processing),
                 PrntID = parent, Data = d, Timestamp = Unix t\<rparr>"
  by (simp add: NewBlock_def Block_Initialize_def core_NewBlock_def zero_Block_def)

lemma BuildBlock_empty: "mempool vm = [] \<Longrightarrow> BuildBlock hash now vm = (Inl errNoPendingBlocks, vm)"
  by (simp add: BuildBlock_def len_def)

lemma BuildBlock_store:
  "DB (snd (BuildBlock hash now vm)) = DB vm \<and> Underlying (snd (BuildBlock hash now vm)) = Underlying vm"
  by (simp add: BuildBlock_def Let_def NotifyBlockReady_def)

text \<open>
  What \<open>BuildBlock\<close> does on a mempool that is not empty, for every codec that
  serializes the block: the head is popped, the block is built on the preferred
  identifier with the seconds of the clock, its status is Processing unless the store
  already holds its identifier, and the engine is notified when data remain.
\<close>

lemma BuildBlock_pops:
  assumes "mempool vm = d # ds"
    and "Marshal (codec vm) ((core_NewBlock (preferred vm))\<lparr>Data := d, Timestamp := sec now\<rparr>)
           = Inr bs"
  shows "BuildBlock hash now vm
           = (Inr \<lparr>blkID = hash bs, blkBytes = bs,
                   status = (case blocks (DB vm) (hash bs) of
                               Some (stored, st) \<Rightarrow> st
                             | None \<Rightarrow> Processing),
                   PrntID = preferred vm, Data = d, Timestamp = sec now\<rparr>,
              if ds = [] then vm\<lparr>mempool := ds\<rparr> else NotifyBlockReady (vm\<lparr>mempool := ds\<rparr>))"
proof -
  have "NewBlock hash (preferred vm) d now (vm\<lparr>mempool := ds\<rparr>)
          = Inr \<lparr>blkID = hash bs, blkBytes = bs,
                 status = (case blocks (DB vm) (hash bs) of
                             Some (stored, st) \<Rightarrow> st
                           | None \<Rightarrow> Processing),
                 PrntID = preferred vm, Data = d, Timestamp = sec now\<rparr>"
    using assms(2)
      NewBlock_Inr [where vm = "vm\<lparr>mempool := ds\<rparr>" and parent = "preferred vm" and d = d
        and t = now and bs = bs and hash = hash]
    by (simp add: Unix_def)
  then show ?thesis
    using assms(1) by (simp add: BuildBlock_def Let_def len_def Preferred_def)
qed

text \<open>
  C5, at a VM on an empty database that holds one proposed datum: \<open>BuildBlock\<close> pops
  the datum and returns a block with that datum, the preferred identifier as parent,
  the seconds of the clock as timestamp and status Processing, and leaves the mempool
  empty; but neither the VM's view of the database nor the database underneath has an
  entry for the block. \<open>NewBlock\<close>, whose comment says the block is persisted, never
  calls \<open>SaveBlock\<close>.
\<close>

theorem BuildBlock_not_persisted:
  "(case BuildBlock example_hash \<lparr>sec = 1600000000, nsec = 5\<rparr>
           (proposeBlock (replicate 32 7) new_VM) of
      (Inr block, vm') \<Rightarrow>
         Data block = replicate 32 7 \<and> PrntID block = preferred new_VM
         \<and> Timestamp block = 1600000000 \<and> status block = Processing
         \<and> mempool vm' = []
         \<and> blocks (DB vm') (blkID block) = None \<and> blocks (Underlying vm') (blkID block) = None
    | (Inl err, vm') \<Rightarrow> False)"
  by (simp add: BuildBlock_def proposeBlock_def NotifyBlockReady_def new_VM_def Let_def len_def
      NewBlock_def Block_Initialize_def core_NewBlock_def zero_Block_def Preferred_def Unix_def
      codec_NewDefault_def default_Marshal_def empty_Database_def)

subsection \<open>Parsing a block\<close>

text \<open>
  C6: \<open>ParseBlock\<close> deserializes the bytes it is given with the VM's codec, computes
  the identifier of the bytes and attaches both, and returns the block beside the
  codec's error. The identifier is looked up in the store: when a block is stored under
  it, the block returned has the durable status of the store; otherwise the block
  returned is the freshly parsed one with the in-memory status Processing.
\<close>

theorem ParseBlock_looks_up_store:
  "\<exists>block. ParseBlock hash bytes vm = (Some block, snd (Unmarshal (codec vm) bytes zero_Block))
     \<and> blkID block = hash bytes
     \<and> blkBytes block = bytes
     \<and> PrntID block = PrntID (fst (Unmarshal (codec vm) bytes zero_Block))
     \<and> Data block = Data (fst (Unmarshal (codec vm) bytes zero_Block))
     \<and> Timestamp block = Timestamp (fst (Unmarshal (codec vm) bytes zero_Block))
     \<and> (\<forall>stored st. blocks (DB vm) (blkID block) = Some (stored, st) \<longrightarrow> status block = st)
     \<and> (blocks (DB vm) (blkID block) = None \<longrightarrow> status block = Processing)"
  by (cases "Unmarshal (codec vm) bytes zero_Block")
     (simp add: ParseBlock_def Block_Initialize_def)

theorem ParseBlock_looks_up_store_witness:
  "blocks (DB (new_VM\<lparr>DB := empty_Database\<lparr>blocks :=
        [example_hash example_block \<mapsto> (example_block, Accepted)]\<rparr>\<rparr>))
      (example_hash example_block)
     = Some (example_block, Accepted)
   \<and> (\<exists>block. fst (ParseBlock example_hash example_block
           (new_VM\<lparr>DB := empty_Database\<lparr>blocks :=
              [example_hash example_block \<mapsto> (example_block, Accepted)]\<rparr>\<rparr>)) = Some block
         \<and> blkID block = example_hash example_block
         \<and> blkBytes block = example_block
         \<and> status block = Accepted)
   \<and> blocks (DB new_VM) (example_hash example_block) = None
   \<and> (\<exists>block. fst (ParseBlock example_hash example_block new_VM) = Some block
         \<and> blkID block = example_hash example_block
         \<and> blkBytes block = example_block
         \<and> status block = Processing)"
proof -
  let ?vm = "new_VM\<lparr>DB := empty_Database\<lparr>blocks :=
        [example_hash example_block \<mapsto> (example_block, Accepted)]\<rparr>\<rparr>"
  have s: "blocks (DB ?vm) (example_hash example_block) = Some (example_block, Accepted)"
    by simp
  have n: "blocks (DB new_VM) (example_hash example_block) = None"
    by (simp add: new_VM_def empty_Database_def)
  from ParseBlock_looks_up_store [of example_hash example_block ?vm]
  obtain b1 where b1: "ParseBlock example_hash example_block ?vm
        = (Some b1, snd (Unmarshal (codec ?vm) example_block zero_Block))
     \<and> blkID b1 = example_hash example_block
     \<and> blkBytes b1 = example_block
     \<and> PrntID b1 = PrntID (fst (Unmarshal (codec ?vm) example_block zero_Block))
     \<and> Data b1 = Data (fst (Unmarshal (codec ?vm) example_block zero_Block))
     \<and> Timestamp b1 = Timestamp (fst (Unmarshal (codec ?vm) example_block zero_Block))
     \<and> (\<forall>stored st. blocks (DB ?vm) (blkID b1) = Some (stored, st) \<longrightarrow> status b1 = st)
     \<and> (blocks (DB ?vm) (blkID b1) = None \<longrightarrow> status b1 = Processing)" ..
  from ParseBlock_looks_up_store [of example_hash example_block new_VM]
  obtain b2 where b2: "ParseBlock example_hash example_block new_VM
        = (Some b2, snd (Unmarshal (codec new_VM) example_block zero_Block))
     \<and> blkID b2 = example_hash example_block
     \<and> blkBytes b2 = example_block
     \<and> PrntID b2 = PrntID (fst (Unmarshal (codec new_VM) example_block zero_Block))
     \<and> Data b2 = Data (fst (Unmarshal (codec new_VM) example_block zero_Block))
     \<and> Timestamp b2 = Timestamp (fst (Unmarshal (codec new_VM) example_block zero_Block))
     \<and> (\<forall>stored st. blocks (DB new_VM) (blkID b2) = Some (stored, st) \<longrightarrow> status b2 = st)
     \<and> (blocks (DB new_VM) (blkID b2) = None \<longrightarrow> status b2 = Processing)" ..
  have "status b1 = Accepted"
    using b1 s by simp
  moreover have "status b2 = Processing"
    using b2 n by simp
  ultimately show ?thesis
    using s n b1 b2 by simp
qed

subsection \<open>Genesis\<close>

lemma genesisDataArr:
  "length g \<le> 32 \<Longrightarrow>
     overwrite (replicate 32 0) 0 (take (min 32 (length g)) g) = g @ replicate (32 - length g) 0"
  by (simp add: overwrite_def min_def)

lemma genesisDataArr_short:
  "length g \<le> 32 \<Longrightarrow> overwrite (replicate 32 0) 0 g = g @ replicate (32 - length g) 0"
  by (simp add: overwrite_def)

lemma Initialize_too_long:
  assumes "\<not> initialized db" and "32 < length genesisData"
  shows "Initialize hash cdc db genesisData vm
           = (Some errBadGenesisBytes, vm\<lparr>DB := db, Underlying := db, codec := cdc\<rparr>)"
  using assms
  by (simp add: Initialize_def SnowmanVM_Initialize_def DBInitialized_def Let_def len_def
      dataLen_def)

lemma Initialize_genesis:
  assumes "\<not> initialized db" and "length genesisData \<le> 32"
    and "Marshal cdc (genesis_of genesisData) = Inr bs"
  shows "Initialize hash cdc db genesisData vm
           = (None, vm\<lparr>DB := db\<lparr>blocks := (blocks db)(hash bs \<mapsto> (bs, Accepted)),
                               initialized := True, lastAccepted := hash bs\<rparr>,
                      Underlying := db\<lparr>blocks := (blocks db)(hash bs \<mapsto> (bs, Accepted)),
                               initialized := True, lastAccepted := hash bs\<rparr>,
                      LastAcceptedID := hash bs, preferred := hash bs, codec := cdc\<rparr>)"
proof -
  let ?vm2 = "vm\<lparr>DB := db, Underlying := db, codec := cdc\<rparr>"
  have n: "NewBlock hash ids_Empty (genesisData @ replicate (32 - length genesisData) 0)
             (time_Unix 0 0) ?vm2
           = Inr \<lparr>blkID = hash bs, blkBytes = bs,
                  status = (case blocks db (hash bs) of
                              Some (stored, st) \<Rightarrow> st
                            | None \<Rightarrow> Processing),
                  PrntID = ids_Empty,
                  Data = genesisData @ replicate (32 - length genesisData) 0, Timestamp = 0\<rparr>"
    using assms(3) NewBlock_Inr [where vm = ?vm2 and parent = ids_Empty and t = "time_Unix 0 0" and bs = bs
        and hash = hash]
    by (simp add: genesis_of_def Unix_def time_Unix_def)
  show ?thesis
    using assms(1,2) n
    by (simp add: Initialize_def SnowmanVM_Initialize_def DBInitialized_def Let_def len_def
        dataLen_def genesisDataArr genesisDataArr_short SaveBlock_def Block_Accept_def SetDBInitialized_def
        DB_Commit_def)
qed

text \<open>
  C7: on a database that is not initialized, \<open>Initialize\<close> with genesis data longer
  than 32 bytes fails with \<open>errBadGenesisBytes\<close> and leaves the database as it was
  handed in, in the VM's view and underneath (nothing persisted, the marker not set,
  nothing committed). With genesis data of at most 32 bytes whose genesis block the
  codec serializes, the genesis block has the all-zero parent, timestamp 0 and the
  data left-aligned and zero-padded to 32 bytes; \<open>Initialize\<close> succeeds, the block is
  stored under its identifier with status Accepted, it is the last accepted and the
  preferred block, the marker is set and all of it is committed.
\<close>

theorem Initialize_genesis_data:
  assumes "\<not> initialized db"
  shows "(32 < length genesisData \<longrightarrow>
            (\<exists>vm'. Initialize hash cdc db genesisData vm = (Some errBadGenesisBytes, vm')
               \<and> DB vm' = db \<and> Underlying vm' = db))
    \<and> (length genesisData \<le> 32 \<and> Marshal cdc (genesis_of genesisData) = Inr bs \<longrightarrow>
            PrntID (genesis_of genesisData) = ids_Empty
          \<and> Timestamp (genesis_of genesisData) = 0
          \<and> Data (genesis_of genesisData) = genesisData @ replicate (32 - length genesisData) 0
          \<and> (\<exists>vm'. Initialize hash cdc db genesisData vm = (None, vm')
               \<and> blocks (DB vm') (hash bs) = Some (bs, Accepted)
               \<and> initialized (DB vm')
               \<and> lastAccepted (DB vm') = hash bs
               \<and> Underlying vm' = DB vm'
               \<and> LastAcceptedID vm' = hash bs \<and> preferred vm' = hash bs))"
proof (intro conjI impI)
  assume "32 < length genesisData"
  then show "\<exists>vm'. Initialize hash cdc db genesisData vm = (Some errBadGenesisBytes, vm')
               \<and> DB vm' = db \<and> Underlying vm' = db"
    using Initialize_too_long [OF assms] by simp
next
  assume a: "length genesisData \<le> 32 \<and> Marshal cdc (genesis_of genesisData) = Inr bs"
  show "PrntID (genesis_of genesisData) = ids_Empty" "Timestamp (genesis_of genesisData) = 0"
    "Data (genesis_of genesisData) = genesisData @ replicate (32 - length genesisData) 0"
    by (simp_all add: genesis_of_def core_NewBlock_def zero_Block_def)
  show "\<exists>vm'. Initialize hash cdc db genesisData vm = (None, vm')
               \<and> blocks (DB vm') (hash bs) = Some (bs, Accepted)
               \<and> initialized (DB vm')
               \<and> lastAccepted (DB vm') = hash bs
               \<and> Underlying vm' = DB vm'
               \<and> LastAcceptedID vm' = hash bs \<and> preferred vm' = hash bs"
    using a Initialize_genesis [OF assms, of genesisData cdc bs hash vm] by simp
qed

theorem Initialize_genesis_data_witness:
  "\<not> initialized empty_Database
    \<and> 32 < length (replicate 33 (1::byte))
    \<and> (\<exists>vm'. Initialize example_hash codec_NewDefault empty_Database
                (replicate 33 1) new_VM = (Some errBadGenesisBytes, vm')
          \<and> DB vm' = empty_Database \<and> Underlying vm' = empty_Database)
    \<and> length [104, 101, 108, 108, 111 :: byte] \<le> 32
    \<and> Marshal codec_NewDefault (genesis_of [104, 101, 108, 108, 111])
        = Inr (replicate 32 0 @ [0, 0, 0, 0] @ [104, 101, 108, 108, 111] @ replicate 27 0
               @ [0, 0, 0, 0, 0, 0, 0, 0])
    \<and> (\<exists>vm'. Initialize example_hash codec_NewDefault empty_Database
                [104, 101, 108, 108, 111] new_VM = (None, vm')
          \<and> blocks (DB vm')
               (example_hash
                  (replicate 32 0 @ [0, 0, 0, 0] @ [104, 101, 108, 108, 111] @ replicate 27 0
                   @ [0, 0, 0, 0, 0, 0, 0, 0]))
             = Some (replicate 32 0 @ [0, 0, 0, 0] @ [104, 101, 108, 108, 111] @ replicate 27 0
                     @ [0, 0, 0, 0, 0, 0, 0, 0], Accepted)
          \<and> initialized (DB vm') \<and> Underlying vm' = DB vm')"
proof -
  let ?h = example_hash
  let ?bs = "replicate 32 0 @ [0, 0, 0, 0] @ [104, 101, 108, 108, 111] @ replicate 27 0
               @ [0, 0, 0, 0, 0, 0, 0, 0 :: byte]"
  have u: "\<not> initialized empty_Database"
    by (simp add: empty_Database_def)
  have l: "32 < length (replicate 33 (1::byte))" "length [104, 101, 108, 108, 111 :: byte] \<le> 32"
    by simp_all
  have m: "Marshal codec_NewDefault (genesis_of [104, 101, 108, 108, 111]) = Inr ?bs"
    by (simp add: codec_NewDefault_def default_Marshal_def genesis_of_def core_NewBlock_def
        zero_Block_def ids_Empty_def status_code_def bytes32_def bytes64_def)
  have a: "\<exists>vm'. Initialize ?h codec_NewDefault empty_Database (replicate 33 1) new_VM
                = (Some errBadGenesisBytes, vm')
          \<and> DB vm' = empty_Database \<and> Underlying vm' = empty_Database"
    using l(1) Initialize_genesis_data [OF u, where genesisData = "replicate 33 1" and hash = ?h
        and cdc = codec_NewDefault and vm = new_VM]
    by blast
  have b: "\<exists>vm'. Initialize ?h codec_NewDefault empty_Database [104, 101, 108, 108, 111] new_VM
                = (None, vm')
          \<and> blocks (DB vm') (?h ?bs) = Some (?bs, Accepted)
          \<and> initialized (DB vm') \<and> Underlying vm' = DB vm'"
    using l(2) m Initialize_genesis_data [OF u, where genesisData = "[104, 101, 108, 108, 111]"
        and hash = ?h and cdc = codec_NewDefault and vm = new_VM and bs = ?bs]
    by blast
  show ?thesis
    using u l m a b by blast
qed


end
